theory Spec2Isabelle
  imports Main "HOL-Library.Multiset"
begin

section \<open>Python values and list operations used by matrix.py\<close>

text \<open>
  The numbers stored in the tables of \<^verbatim>\<open>matrix.py\<close> are Python integers or the
  float \<^verbatim>\<open>float('inf')\<close> that both functions use as the initial value of a minimum.
\<close>

datatype pynum = Fin int | PInf

datatype error = IndexError | ValueError

instantiation pynum :: linorder
begin

fun less_eq_pynum :: "pynum \<Rightarrow> pynum \<Rightarrow> bool" where
  "less_eq_pynum (Fin a) (Fin b) = (a \<le> b)"
| "less_eq_pynum PInf (Fin b) = False"
| "less_eq_pynum x PInf = True"

definition less_pynum :: "pynum \<Rightarrow> pynum \<Rightarrow> bool" where
  "less_pynum x y = (x \<le> y \<and> \<not> y \<le> (x::pynum))"

instance
proof
  fix x y z :: pynum
  show "(x < y) = (x \<le> y \<and> \<not> y \<le> x)" by (simp add: less_pynum_def)
  show "x \<le> x" by (cases x) simp_all
  show "x \<le> y \<Longrightarrow> y \<le> z \<Longrightarrow> x \<le> z"
    by (cases x; cases y; cases z) simp_all
  show "x \<le> y \<Longrightarrow> y \<le> x \<Longrightarrow> x = y"
    by (cases x; cases y) simp_all
  show "x \<le> y \<or> y \<le> x"
    by (cases x; cases y) auto
qed

end

text \<open>\<^verbatim>\<open>a + b\<close> on two table numbers; no negative infinity ever occurs.\<close>

fun padd :: "pynum \<Rightarrow> pynum \<Rightarrow> pynum" where
  "padd (Fin a) (Fin b) = Fin (a + b)"
| "padd PInf y = PInf"
| "padd x PInf = PInf"

text \<open>\<^verbatim>\<open>x - i\<close> for a table number \<open>x\<close> and an integer \<open>i\<close>.\<close>

fun psub_int :: "pynum \<Rightarrow> int \<Rightarrow> pynum" where
  "psub_int (Fin a) i = Fin (a - i)"
| "psub_int PInf i = PInf"

text \<open>Sequencing of computations that may raise.\<close>

definition bind_e :: "error + 'a \<Rightarrow> ('a \<Rightarrow> error + 'b) \<Rightarrow> error + 'b" where
  "bind_e r f = (case r of Inl e \<Rightarrow> Inl e | Inr v \<Rightarrow> f v)"

text \<open>\<^verbatim>\<open>xs[i]\<close> for a non-negative index.\<close>

definition nth_e :: "'a list \<Rightarrow> nat \<Rightarrow> error + 'a" where
  "nth_e xs i = (if i < length xs then Inr (xs ! i) else Inl IndexError)"

text \<open>\<^verbatim>\<open>xs[i]\<close> for any integer index: a negative index counts from the end.\<close>

definition py_index :: "'a list \<Rightarrow> int \<Rightarrow> error + 'a" where
  "py_index xs i =
     (if 0 \<le> i then nth_e xs (nat i)
      else if - int (length xs) \<le> i then Inr (xs ! nat (int (length xs) + i))
      else Inl IndexError)"

text \<open>\<^verbatim>\<open>xs[i] = v\<close> for a non-negative index.\<close>

definition set_e :: "'a list \<Rightarrow> nat \<Rightarrow> 'a \<Rightarrow> error + 'a list" where
  "set_e xs i v = (if i < length xs then Inr (xs[i := v]) else Inl IndexError)"

text \<open>\<^verbatim>\<open>dp[r][c] = v\<close>: the row object is fetched, then updated in place.\<close>

definition set2_e :: "'a list list \<Rightarrow> nat \<Rightarrow> nat \<Rightarrow> 'a \<Rightarrow> error + 'a list list" where
  "set2_e dp r c v =
     bind_e (nth_e dp r) (\<lambda>row. bind_e (set_e row c v) (\<lambda>row'. set_e dp r row'))"

text \<open>\<^verbatim>\<open>min(a, b)\<close> returns its first argument unless the second is smaller.\<close>

definition py_min2 :: "pynum \<Rightarrow> pynum \<Rightarrow> pynum" where
  "py_min2 a b = (if b < a then b else a)"

text \<open>\<^verbatim>\<open>min(xs)\<close> raises \<^verbatim>\<open>ValueError\<close> on an empty list.\<close>

definition py_min :: "pynum list \<Rightarrow> error + pynum" where
  "py_min xs = (case xs of [] \<Rightarrow> Inl ValueError | x # ys \<Rightarrow> Inr (fold (\<lambda>y acc. py_min2 acc y) ys x))"

text \<open>
  A \<^verbatim>\<open>for x in xs:\<close> loop whose body updates the state \<open>s\<close> and may raise; an exception
  leaves the loop at once.
\<close>

fun for_loop :: "'i list \<Rightarrow> ('i \<Rightarrow> 's \<Rightarrow> error + 's) \<Rightarrow> 's \<Rightarrow> error + 's" where
  "for_loop [] body s = Inr s"
| "for_loop (x # xs) body s =
     (case body x s of Inl e \<Rightarrow> Inl e | Inr s' \<Rightarrow> for_loop xs body s')"

section \<open>find_least_seam\<close>

text \<open>
  \<^verbatim>\<open>for k in range(-1, 2): if n > k + j >= 0: valid = min(valid, dp[i - 2][k + j - 1])\<close>.
  The state of the loop is \<open>valid\<close>; \<open>i\<close> and \<open>j\<close> are the 1-based loop counters of the
  source.
\<close>

definition seam_k_body :: "pynum list list \<Rightarrow> int \<Rightarrow> int \<Rightarrow> int \<Rightarrow> int \<Rightarrow> pynum \<Rightarrow> error + pynum" where
  "seam_k_body dp n i j k valid =
     (if n > k + j \<and> k + j \<ge> 0
      then bind_e (py_index dp (i - 2)) (\<lambda>row.
           bind_e (py_index row (k + j - 1)) (\<lambda>v. Inr (py_min2 valid v)))
      else Inr valid)"

text \<open>The body of the loop over \<open>j\<close>: one cell of the table is written.\<close>

definition seam_cell :: "int list list \<Rightarrow> int \<Rightarrow> int \<Rightarrow> int \<Rightarrow> pynum list list \<Rightarrow> error + pynum list list" where
  "seam_cell d n i j dp =
     (if i = 1
      then bind_e (py_index d (i - 1)) (\<lambda>drow.
           bind_e (py_index drow (j - 1)) (\<lambda>v.
             set2_e dp (nat (i - 1)) (nat (j - 1)) (Fin v)))
      else bind_e (for_loop [-1 .. 1] (seam_k_body dp n i j) PInf) (\<lambda>valid.
           bind_e (py_index d (i - 1)) (\<lambda>drow.
           bind_e (py_index drow (j - 1)) (\<lambda>v.
             set2_e dp (nat (i - 1)) (nat (j - 1)) (padd (Fin v) valid)))))"

text \<open>
  The table after both loops. \<^verbatim>\<open>range(1, m + 1)\<close> is \<open>[1..m]\<close>; the initial table has
  \<open>m\<close> rows of \<open>n\<close> zeros (none when the bound is not positive). The two \<^verbatim>\<open>print\<close>
  calls do not change the table and are left out.
\<close>

definition seam_table :: "int list list \<Rightarrow> int \<Rightarrow> int \<Rightarrow> error + pynum list list" where
  "seam_table d m n =
     for_loop [1 .. m] (\<lambda>i. for_loop [1 .. n] (seam_cell d n i))
       (replicate (nat m) (replicate (nat n) (Fin 0)))"

definition find_least_seam :: "int list list \<Rightarrow> int \<Rightarrow> int \<Rightarrow> error + pynum" where
  "find_least_seam d m n =
     bind_e (seam_table d m n) (\<lambda>dp. bind_e (py_index dp (m - 1)) py_min)"

section \<open>break_string_cost\<close>

text \<open>
  One round of \<^verbatim>\<open>for k in range(i, j)\<close>: the state is the pair \<open>min_cost\<close>.
  All indices of this function are non-negative, so they are natural numbers here.
\<close>

definition bsc_k_body :: "(pynum \<times> int) list list \<Rightarrow> nat \<Rightarrow> nat \<Rightarrow> nat \<Rightarrow> pynum \<times> int \<Rightarrow> error + pynum \<times> int" where
  "bsc_k_body dp i j k min_cost =
     bind_e (nth_e dp i) (\<lambda>row_i.
     bind_e (nth_e row_i k) (\<lambda>a.
     bind_e (nth_e dp (k + 1)) (\<lambda>row_k.
     bind_e (nth_e row_k j) (\<lambda>b.
       let cost = (padd (fst a) (fst b), int k)
       in Inr (if fst cost < fst min_cost then cost else min_cost)))))"

text \<open>The body of the loop over \<open>i\<close>, for a given number of break points.\<close>

definition bsc_cell :: "int \<Rightarrow> int list \<Rightarrow> nat \<Rightarrow> nat \<Rightarrow> nat \<Rightarrow> (pynum \<times> int) list list \<Rightarrow> error + (pynum \<times> int) list list" where
  "bsc_cell string_length cuts n num_break_points i dp =
     (let j = i + num_break_points in
      bind_e (for_loop [i ..< j] (bsc_k_body dp i j) (PInf, - 1)) (\<lambda>min_cost.
      bind_e (if i = 0 then Inr 0 else nth_e cuts (i - 1)) (\<lambda>string_start.
      bind_e (if j \<ge> n then Inr string_length else nth_e cuts j) (\<lambda>string_end.
        set2_e dp i j (psub_int (padd (fst min_cost) (Fin string_end)) string_start, snd min_cost)))))"

definition bsc_table :: "int \<Rightarrow> int list \<Rightarrow> error + (pynum \<times> int) list list" where
  "bsc_table string_length cuts =
     (let n = length cuts; m = n + 1 in
      for_loop [1 ..< m] (\<lambda>num_break_points.
          for_loop [0 ..< m - num_break_points] (bsc_cell string_length cuts n num_break_points))
        (replicate m (replicate m (Fin 0, - 1))))"

definition break_string_cost :: "int \<Rightarrow> int list \<Rightarrow> error + pynum" where
  "break_string_cost string_length cuts =
     bind_e (bsc_table string_length cuts) (\<lambda>dp.
     bind_e (nth_e dp 0) (\<lambda>row.
     bind_e (nth_e row (length cuts)) (\<lambda>cell. Inr (fst cell))))"

section \<open>Reference definitions from the specification\<close>

text \<open>
  The seam recurrence as the specification words it: row 0 is the grid's row 0, and a later
  cell adds to its grid value the least value of the previous row over the columns
  \<open>j - 1\<close>, \<open>j\<close>, \<open>j + 1\<close> that lie in \<open>[0, n)\<close>. Rows and columns are 0-based.
\<close>

fun seam_spec :: "int list list \<Rightarrow> nat \<Rightarrow> nat \<Rightarrow> nat \<Rightarrow> int" where
  "seam_spec d n 0 j = d ! 0 ! j"
| "seam_spec d n (Suc i) j =
     d ! Suc i ! j +
     Min (set (map (seam_spec d n i) (filter (\<lambda>k. j \<le> k + 1 \<and> k \<le> j + 1) [0 ..< n])))"

text \<open>All orders in which a list of cuts can be applied.\<close>

fun perms :: "'a list \<Rightarrow> 'a list list" where
  "perms [] = [[]]"
| "perms (x # xs) =
     concat (map (\<lambda>p. map (\<lambda>i. take i p @ x # drop i p) [0 ..< Suc (length p)]) (perms xs))"

text \<open>
  The piece that contains position \<open>c\<close> once the cuts \<open>made\<close> have been applied to a
  string that occupies \<open>[0, L)\<close>: it starts at the nearest boundary at or below \<open>c\<close> and
  ends at the nearest boundary above \<open>c\<close>.
\<close>

definition piece_lo :: "int list \<Rightarrow> int \<Rightarrow> int" where
  "piece_lo made c = Max (set (0 # filter (\<lambda>b. b \<le> c) made))"

definition piece_hi :: "int \<Rightarrow> int list \<Rightarrow> int \<Rightarrow> int" where
  "piece_hi L made c = Min (set (L # filter (\<lambda>b. c < b) made))"

text \<open>
  The total cost of applying the cuts \<open>cs\<close> in the order given, after the cuts \<open>made\<close>:
  each cut costs the length of the piece it is made in.
\<close>

fun cut_seq_cost :: "int \<Rightarrow> int list \<Rightarrow> int list \<Rightarrow> int" where
  "cut_seq_cost L made [] = 0"
| "cut_seq_cost L made (c # cs) =
     (piece_hi L made c - piece_lo made c) + cut_seq_cost L (c # made) cs"

definition brute_force_cost :: "int \<Rightarrow> int list \<Rightarrow> int" where
  "brute_force_cost L cuts = Min (set (map (cut_seq_cost L []) (perms cuts)))"

section \<open>The recurrence behind the table of break_string_cost\<close>

text \<open>
  The table cell \<open>(i, j)\<close> stands for the piece that starts at \<^verbatim>\<open>string_start\<close> and ends
  at \<^verbatim>\<open>string_end\<close>, as the source computes them from \<open>i\<close> and \<open>j\<close>.
\<close>

definition pos_start :: "int list \<Rightarrow> nat \<Rightarrow> int" where
  "pos_start cuts i = (if i = 0 then 0 else cuts ! (i - 1))"

definition pos_end :: "int \<Rightarrow> int list \<Rightarrow> nat \<Rightarrow> int" where
  "pos_end L cuts j = (if j \<ge> length cuts then L else cuts ! j)"

text \<open>The cost that the loops store in cell \<open>(i, j)\<close>, as a recursive function.\<close>

function bsc_opt :: "int \<Rightarrow> int list \<Rightarrow> nat \<Rightarrow> nat \<Rightarrow> int" where
  "bsc_opt L cuts i j =
     (if j \<le> i then 0
      else Min ((\<lambda>k. bsc_opt L cuts i k + bsc_opt L cuts (Suc k) j) ` {i ..< j})
           + pos_end L cuts j - pos_start cuts i)"
  by pat_completeness auto
termination
  by (relation "measure (\<lambda>(L, cuts, i, j). j - i)") auto

declare bsc_opt.simps [simp del]

text \<open>
  The cells already written when the outer loop is at width \<open>w\<close> and the inner loop is about
  to treat row \<open>i\<close>, and the invariant of the two loops.
\<close>

definition bsc_done :: "nat \<Rightarrow> nat \<Rightarrow> nat \<Rightarrow> nat \<Rightarrow> bool" where
  "bsc_done w i a b = (a < b \<and> (b - a < w \<or> (b - a = w \<and> a < i)))"

definition bsc_inv :: "int \<Rightarrow> int list \<Rightarrow> nat \<Rightarrow> nat \<Rightarrow> (pynum \<times> int) list list \<Rightarrow> bool" where
  "bsc_inv L cuts w i dp =
     (length dp = Suc (length cuts)
      \<and> (\<forall>r < Suc (length cuts). length (dp ! r) = Suc (length cuts))
      \<and> (\<forall>a < Suc (length cuts). \<forall>b < Suc (length cuts).
            (b \<le> a \<longrightarrow> dp ! a ! b = (Fin 0, - 1))
          \<and> (bsc_done w i a b \<longrightarrow>
                fst (dp ! a ! b) = Fin (bsc_opt L cuts a b)
              \<and> int a \<le> snd (dp ! a ! b) \<and> snd (dp ! a ! b) < int b)))"

section \<open>The recurrence behind the table of find_least_seam\<close>

text \<open>
  The value that the loops store in the 0-based row \<open>r\<close> and column \<open>c\<close> of the table: the
  previous row is read at the indices \<open>c - 1\<close>, \<open>c\<close>, \<open>c + 1\<close> that lie in \<open>[-1, n - 2]\<close>, and
  the index \<open>-1\<close> is the last column.
\<close>

fun seam_val :: "int list list \<Rightarrow> nat \<Rightarrow> nat \<Rightarrow> nat \<Rightarrow> pynum" where
  "seam_val d n 0 c = Fin (d ! 0 ! c)"
| "seam_val d n (Suc r) c =
     padd (Fin (d ! Suc r ! c))
       (Min ((\<lambda>k. seam_val d n r (nat (k mod int n)))
              ` {k \<in> {int c - 1, int c, int c + 1}. - 1 \<le> k \<and> k \<le> int n - 2}))"

text \<open>
  The invariant of the two loops, when rows below \<open>r\<close> and the columns below \<open>c\<close> of row \<open>r\<close>
  are written.
\<close>

definition seam_inv :: "int list list \<Rightarrow> nat \<Rightarrow> nat \<Rightarrow> nat \<Rightarrow> nat \<Rightarrow> pynum list list \<Rightarrow> bool" where
  "seam_inv d m n r c dp =
     (length dp = m \<and> (\<forall>a < m. length (dp ! a) = n)
      \<and> (\<forall>a < m. \<forall>b < n. a < r \<or> (a = r \<and> b < c) \<longrightarrow> dp ! a ! b = seam_val d n a b))"


section \<open>Orders of cutting, as trees\<close>

text \<open>
  The cost of applying the cuts \<open>c # cs\<close> in this order to the piece \<open>[lo, hi)\<close>: the first cut
  pays the length of the piece, and the later cuts fall into the part left of \<open>c\<close> or into the
  part right of \<open>c\<close>, where they keep their relative order.
\<close>

function tcost :: "int \<Rightarrow> int \<Rightarrow> int list \<Rightarrow> int" where
  "tcost lo hi [] = 0"
| "tcost lo hi (c # cs) =
     (hi - lo) + tcost lo c (filter (\<lambda>x. x < c) cs) + tcost c hi (filter (\<lambda>x. c < x) cs)"
  by pat_completeness auto
termination
  by (relation "measure (\<lambda>(lo, hi, cs). length cs)") (auto simp add: less_Suc_eq_le)

text \<open>The orders in which the cuts of a finite set can be applied, and the least cost among them.\<close>

definition orders :: "int set \<Rightarrow> int list set" where
  "orders S = {p. distinct p \<and> set p = S}"

definition best :: "int \<Rightarrow> int \<Rightarrow> int set \<Rightarrow> int" where
  "best lo hi S = Min (tcost lo hi ` orders S)"

section \<open>Basic facts\<close>

lemma bind_e_Inr [simp]: "bind_e (Inr v) f = f v"
  by (simp add: bind_e_def)

lemma bind_e_Inl [simp]: "bind_e (Inl e) f = Inl e"
  by (simp add: bind_e_def)

lemma nth_e_in [simp]: "i < length xs \<Longrightarrow> nth_e xs i = Inr (xs ! i)"
  by (simp add: nth_e_def)

lemma set_e_in [simp]: "i < length xs \<Longrightarrow> set_e xs i v = Inr (xs[i := v])"
  by (simp add: set_e_def)

lemma set2_e_in:
  "r < length dp \<Longrightarrow> c < length (dp ! r) \<Longrightarrow> set2_e dp r c v = Inr (dp[r := (dp ! r)[c := v]])"
  by (simp add: set2_e_def)

lemma for_loop_upt_inv:
  assumes "P a s" and "a \<le> b"
    and "\<And>t s. a \<le> t \<Longrightarrow> t < b \<Longrightarrow> P t s \<Longrightarrow> \<exists>s'. body t s = Inr s' \<and> P (Suc t) s'"
  shows "\<exists>s'. for_loop [a ..< b] body s = Inr s' \<and> P b s'"
  using assms
proof (induction "b - a" arbitrary: a s)
  case 0
  then show ?case by simp
next
  case (Suc d)
  then have lt: "a < b" by simp
  from Suc.prems(3)[OF le_refl lt Suc.prems(1)]
  obtain s1 where s1: "body a s = Inr s1" "P (Suc a) s1" by blast
  have "\<exists>s'. for_loop [Suc a ..< b] body s1 = Inr s' \<and> P b s'"
  proof (rule Suc.hyps(1))
    show "d = b - Suc a" using Suc.hyps(2) by simp
    show "P (Suc a) s1" by (rule s1)
    show "Suc a \<le> b" using lt by simp
    show "\<And>t s. Suc a \<le> t \<Longrightarrow> t < b \<Longrightarrow> P t s \<Longrightarrow> \<exists>s'. body t s = Inr s' \<and> P (Suc t) s'"
      using Suc.prems(3) by simp
  qed
  then show ?case using lt s1 by (simp add: upt_conv_Cons)
qed

lemma Fin_less_PInf [simp]: "Fin a < PInf"
  by (simp add: less_pynum_def)

lemma Fin_less_Fin [simp]: "(Fin a < Fin b) = (a < b)"
  by (auto simp add: less_pynum_def)

lemma not_PInf_less [simp]: "\<not> PInf < x"
  by (cases x) (simp_all add: less_pynum_def)

section \<open>break_string_cost: the table after the loops\<close>

text \<open>The loop over \<open>k\<close> finds the least sum of the two sub-costs.\<close>

lemma bsc_k_loop:
  assumes len: "length dp = Suc n" "\<forall>r < Suc n. length (dp ! r) = Suc n"
    and ij: "i < j" "j \<le> n"
    and left: "\<And>k. i \<le> k \<Longrightarrow> k < j \<Longrightarrow> fst (dp ! i ! k) = Fin (f k)"
    and right: "\<And>k. i \<le> k \<Longrightarrow> k < j \<Longrightarrow> fst (dp ! Suc k ! j) = Fin (g k)"
  shows "\<exists>mc. for_loop [i ..< j] (bsc_k_body dp i j) (PInf, - 1) = Inr mc
           \<and> fst mc = Fin (Min ((\<lambda>k. f k + g k) ` {i ..< j}))
           \<and> int i \<le> snd mc \<and> snd mc < int j"
proof -
  let ?h = "\<lambda>k. f k + g k"
  let ?P = "\<lambda>t mc. (if t = i then mc = (PInf, - 1)
                     else fst mc = Fin (Min (?h ` {i ..< t})) \<and> int i \<le> snd mc \<and> snd mc < int t)"
  have "\<exists>mc. for_loop [i ..< j] (bsc_k_body dp i j) (PInf, - 1) = Inr mc \<and> ?P j mc"
  proof (rule for_loop_upt_inv[where P = ?P])
    show "?P i (PInf, - 1)" by simp
    show "i \<le> j" using ij by simp
  next
    fix t mc
    assume t: "i \<le> t" "t < j" and P: "?P t mc"
    have b: "bsc_k_body dp i j t mc
             = Inr (if Fin (?h t) < fst mc then (Fin (?h t), int t) else mc)"
      using t ij len left[OF t] right[OF t]
      by (simp add: bsc_k_body_def Let_def)
    show "\<exists>s'. bsc_k_body dp i j t mc = Inr s' \<and> ?P (Suc t) s'"
    proof (cases "t = i")
      case True
      then show ?thesis using b P by simp
    next
      case False
      have fin: "finite (?h ` {i ..< t})" and ne: "?h ` {i ..< t} \<noteq> {}"
        using False t by auto
      have eq: "{i ..< Suc t} = insert t {i ..< t}" using t by auto
      have M: "Min (?h ` {i ..< Suc t}) = min (?h t) (Min (?h ` {i ..< t}))"
        unfolding eq image_insert using fin ne by (rule Min_insert)
      define M0 where "M0 = Min (?h ` {i ..< t})"
      have P': "fst mc = Fin M0" "int i \<le> snd mc" "snd mc < int t"
        using P False by (simp_all add: M0_def)
      have b': "bsc_k_body dp i j t mc = Inr (if ?h t < M0 then (Fin (?h t), int t) else mc)"
        using b P' by simp
      have M': "Min (?h ` {i ..< Suc t}) = min (?h t) M0"
        using M by (simp add: M0_def)
      show ?thesis unfolding b' M' using P' t by (simp add: min_def)
    qed
  qed
  then show ?thesis using ij by auto
qed


lemma nth2_update:
  "a < length dp \<Longrightarrow> r < length dp \<Longrightarrow> c < length (dp ! r) \<Longrightarrow>
   dp[r := (dp ! r)[c := v]] ! a ! b = (if a = r \<and> b = c then v else dp ! a ! b)"
  by (cases "a = r") (auto simp add: nth_list_update)

lemma length2_update:
  "a < length dp \<Longrightarrow> length (dp[r := (dp ! r)[c := v]] ! a) = length (dp ! a)"
  by (cases "a = r") simp_all

lemma bsc_inv_fst:
  assumes "bsc_inv L cuts w i dp" "a \<le> length cuts" "b \<le> length cuts"
    and "b \<le> a \<or> bsc_done w i a b"
  shows "fst (dp ! a ! b) = Fin (bsc_opt L cuts a b)"
proof (cases "b \<le> a")
  case True
  then have "dp ! a ! b = (Fin 0, - 1)" using assms by (simp add: bsc_inv_def)
  then show ?thesis using True by (simp add: bsc_opt.simps)
next
  case False
  then show ?thesis using assms by (simp add: bsc_inv_def)
qed

lemma bsc_inv_done:
  assumes "bsc_inv L cuts w i dp" "a < Suc (length cuts)" "b < Suc (length cuts)"
    and "bsc_done w i a b"
  shows "fst (dp ! a ! b) = Fin (bsc_opt L cuts a b)
         \<and> int a \<le> snd (dp ! a ! b) \<and> snd (dp ! a ! b) < int b"
  using assms unfolding bsc_inv_def by blast

lemma bsc_done_Suc:
  "bsc_done w (Suc t) a b = (bsc_done w t a b \<or> (a = t \<and> b = t + w \<and> 0 < w))"
  by (auto simp add: bsc_done_def)

lemma bsc_cell_step:
  assumes inv: "bsc_inv L cuts w t dp"
    and w: "0 < w" and t: "t + w \<le> length cuts"
  shows "\<exists>dp'. bsc_cell L cuts (length cuts) w t dp = Inr dp' \<and> bsc_inv L cuts w (Suc t) dp'"
proof -
  let ?n = "length cuts"
  let ?j = "t + w"
  let ?f = "\<lambda>k. bsc_opt L cuts t k"
  let ?g = "\<lambda>k. bsc_opt L cuts (Suc k) ?j"
  have len: "length dp = Suc ?n" "\<forall>r < Suc ?n. length (dp ! r) = Suc ?n"
    using inv by (simp_all add: bsc_inv_def)
  have left: "fst (dp ! t ! k) = Fin (?f k)" if "t \<le> k" "k < ?j" for k
    using that t by (intro bsc_inv_fst[OF inv]) (auto simp add: bsc_done_def)
  have right: "fst (dp ! Suc k ! ?j) = Fin (?g k)" if "t \<le> k" "k < ?j" for k
    using that t by (intro bsc_inv_fst[OF inv]) (auto simp add: bsc_done_def)
  have "\<exists>mc. for_loop [t ..< ?j] (bsc_k_body dp t ?j) (PInf, - 1) = Inr mc
           \<and> fst mc = Fin (Min ((\<lambda>k. ?f k + ?g k) ` {t ..< ?j}))
           \<and> int t \<le> snd mc \<and> snd mc < int ?j"
  proof (rule bsc_k_loop[where n = ?n and f = ?f and g = ?g])
    show "length dp = Suc ?n" "\<forall>r < Suc ?n. length (dp ! r) = Suc ?n" by (rule len)+
    show "t < ?j" using w by simp
    show "?j \<le> ?n" by (rule t)
    show "\<And>k. t \<le> k \<Longrightarrow> k < ?j \<Longrightarrow> fst (dp ! t ! k) = Fin (?f k)" by (rule left)
    show "\<And>k. t \<le> k \<Longrightarrow> k < ?j \<Longrightarrow> fst (dp ! Suc k ! ?j) = Fin (?g k)" by (rule right)
  qed
  then obtain mc where mc: "for_loop [t ..< ?j] (bsc_k_body dp t ?j) (PInf, - 1) = Inr mc"
    "fst mc = Fin (Min ((\<lambda>k. ?f k + ?g k) ` {t ..< ?j}))"
    "int t \<le> snd mc" "snd mc < int ?j"
    by auto
  define v where "v = (Fin (bsc_opt L cuts t ?j), snd mc)"
  have start: "(if t = 0 then Inr 0 else nth_e cuts (t - 1)) = Inr (pos_start cuts t)"
    using t w by (simp add: pos_start_def)
  have "end": "(if ?j \<ge> ?n then Inr L else nth_e cuts ?j) = Inr (pos_end L cuts ?j)"
    by (simp add: pos_end_def)
  have opt: "bsc_opt L cuts t ?j
        = Min ((\<lambda>k. ?f k + ?g k) ` {t ..< ?j}) + pos_end L cuts ?j - pos_start cuts t"
    using w by (subst bsc_opt.simps) simp
  have cell: "bsc_cell L cuts ?n w t dp = Inr (dp[t := (dp ! t)[?j := v]])"
    unfolding bsc_cell_def Let_def mc(1) start "end" bind_e_Inr
    using len t by (simp add: set2_e_in mc(2) opt v_def)
  have "bsc_inv L cuts w (Suc t) (dp[t := (dp ! t)[?j := v]])"
    unfolding bsc_inv_def
  proof (intro conjI allI impI)
    show "length (dp[t := (dp ! t)[?j := v]]) = Suc ?n" using len by simp
  next
    fix r assume "r < Suc ?n"
    then show "length (dp[t := (dp ! t)[?j := v]] ! r) = Suc ?n"
      using len by (simp add: length2_update)
  next
    fix a b assume ab: "a < Suc ?n" "b < Suc ?n" "b \<le> a"
    have "dp[t := (dp ! t)[?j := v]] ! a ! b = dp ! a ! b"
      using ab len t w by (subst nth2_update) auto
    then show "dp[t := (dp ! t)[?j := v]] ! a ! b = (Fin 0, - 1)"
      using inv ab by (simp add: bsc_inv_def)
  next
    fix a b assume ab: "a < Suc ?n" "b < Suc ?n" "bsc_done w (Suc t) a b"
    have upd: "dp[t := (dp ! t)[?j := v]] ! a ! b = (if a = t \<and> b = ?j then v else dp ! a ! b)"
      using ab len t by (subst nth2_update) auto
    show "fst (dp[t := (dp ! t)[?j := v]] ! a ! b) = Fin (bsc_opt L cuts a b)"
      using ab inv upd by (auto simp add: bsc_done_Suc v_def bsc_inv_def)
    show "int a \<le> snd (dp[t := (dp ! t)[?j := v]] ! a ! b)"
      using ab inv upd mc(3) by (auto simp add: bsc_done_Suc v_def bsc_inv_def)
    show "snd (dp[t := (dp ! t)[?j := v]] ! a ! b) < int b"
      using ab inv upd mc(4) by (auto simp add: bsc_done_Suc v_def bsc_inv_def)
  qed
  then show ?thesis using cell by simp
qed

lemma bsc_width_step:
  assumes inv: "bsc_inv L cuts w 0 dp" and w: "0 < w" "w \<le> length cuts"
  shows "\<exists>dp'. for_loop [0 ..< Suc (length cuts) - w] (bsc_cell L cuts (length cuts) w) dp = Inr dp'
           \<and> bsc_inv L cuts (Suc w) 0 dp'"
proof -
  have "\<exists>dp'. for_loop [0 ..< Suc (length cuts) - w] (bsc_cell L cuts (length cuts) w) dp = Inr dp'
           \<and> bsc_inv L cuts w (Suc (length cuts) - w) dp'"
  proof (rule for_loop_upt_inv[where P = "bsc_inv L cuts w"])
    show "bsc_inv L cuts w 0 dp" by (rule inv)
    show "0 \<le> Suc (length cuts) - w" by simp
  next
    fix t s assume "t < Suc (length cuts) - w" "bsc_inv L cuts w t s"
    then show "\<exists>s'. bsc_cell L cuts (length cuts) w t s = Inr s' \<and> bsc_inv L cuts w (Suc t) s'"
      using w by (intro bsc_cell_step) auto
  qed
  moreover have "bsc_inv L cuts (Suc w) 0 dp'" if "bsc_inv L cuts w (Suc (length cuts) - w) dp'" for dp'
  proof -
    have "bsc_done (Suc w) 0 a b = bsc_done w (Suc (length cuts) - w) a b"
      if "a < Suc (length cuts)" "b < Suc (length cuts)" for a b
      using that by (auto simp add: bsc_done_def)
    then show ?thesis using that unfolding bsc_inv_def by simp
  qed
  ultimately show ?thesis by blast
qed

lemma bsc_table_inv:
  "\<exists>dp. bsc_table L cuts = Inr dp \<and> bsc_inv L cuts (Suc (length cuts)) 0 dp"
proof -
  have "\<exists>dp. for_loop [1 ..< length cuts + 1]
            (\<lambda>w. for_loop [0 ..< length cuts + 1 - w] (bsc_cell L cuts (length cuts) w))
            (replicate (length cuts + 1) (replicate (length cuts + 1) (Fin 0, - 1))) = Inr dp
          \<and> bsc_inv L cuts (length cuts + 1) 0 dp"
  proof (rule for_loop_upt_inv[where P = "\<lambda>w. bsc_inv L cuts w 0"])
    show "bsc_inv L cuts 1 0 (replicate (length cuts + 1) (replicate (length cuts + 1) (Fin 0, - 1)))"
      by (auto simp add: bsc_inv_def bsc_done_def simp del: replicate.simps replicate_Suc)
    show "1 \<le> length cuts + 1" by simp
  next
    fix w s assume "1 \<le> w" "w < length cuts + 1" "bsc_inv L cuts w 0 s"
    then show "\<exists>s'. for_loop [0 ..< length cuts + 1 - w] (bsc_cell L cuts (length cuts) w) s = Inr s'
                 \<and> bsc_inv L cuts (Suc w) 0 s'"
      using bsc_width_step[of L cuts w s] by simp
  qed
  then show ?thesis by (simp add: bsc_table_def Let_def)
qed

lemma break_string_cost_opt:
  "break_string_cost L cuts = Inr (Fin (bsc_opt L cuts 0 (length cuts)))"
proof -
  obtain dp where dp: "bsc_table L cuts = Inr dp" "bsc_inv L cuts (Suc (length cuts)) 0 dp"
    using bsc_table_inv by blast
  have len: "length dp = Suc (length cuts)" "length (dp ! 0) = Suc (length cuts)"
    using dp(2) by (simp_all add: bsc_inv_def)
  have "fst (dp ! 0 ! length cuts) = Fin (bsc_opt L cuts 0 (length cuts))"
    by (rule bsc_inv_fst[OF dp(2)]) (auto simp add: bsc_done_def)
  then show ?thesis using dp(1) len by (simp add: break_string_cost_def)
qed


lemma bsc_opt_adjacent:
  "bsc_opt L cuts i (Suc i) = pos_end L cuts (Suc i) - pos_start cuts i"
  by (subst bsc_opt.simps) (simp add: bsc_opt.simps)

section \<open>break_string_cost: properties of the result\<close>

text \<open>
  C9: for every integer \<open>string_length\<close> and every list of integers \<open>cuts\<close>, valid or not,
  \<^verbatim>\<open>break_string_cost\<close> raises no exception and returns a finite number (the model has no
  unbounded loop, so it always returns; the result is never an error and never the
  infinity it starts each minimum with).
\<close>

theorem break_string_cost_total: "\<exists>v. break_string_cost L cuts = Inr (Fin v)"
  by (simp add: break_string_cost_opt)

text \<open>
  C10: with exactly one cut, \<^verbatim>\<open>break_string_cost\<close> returns \<open>string_length\<close> whatever the
  position of the cut is, also a negative or an out-of-range one.
\<close>

theorem break_string_cost_single: "break_string_cost L [c] = Inr (Fin L)"
  by (simp add: break_string_cost_opt bsc_opt_adjacent pos_end_def pos_start_def)

text \<open>
  C3, amended: the function validates nothing. When \<open>cuts\<close> is not strictly increasing or
  holds a value outside \<open>[0, string_length)\<close>, it raises no error and still returns a
  finite number.
\<close>

theorem break_string_cost_invalid_returns:
  assumes "\<not> sorted_wrt (<) cuts \<or> (\<exists>c \<in> set cuts. c < 0 \<or> L \<le> c)"
  shows "\<exists>v. break_string_cost L cuts = Inr (Fin v)"
  by (simp add: break_string_cost_opt)

theorem break_string_cost_invalid_returns_witness:
  "\<not> sorted_wrt (<) [5, 3 :: int] \<and> (\<exists>v. break_string_cost 10 [5, 3] = Inr (Fin v))"
proof -
  have h: "\<not> sorted_wrt (<) [5, 3 :: int] \<or> (\<exists>c \<in> set [5, 3 :: int]. c < 0 \<or> 10 \<le> c)"
    by simp
  show ?thesis using break_string_cost_invalid_returns[OF h] by simp
qed

text \<open>
  C5, amended: in the table that \<^verbatim>\<open>break_string_cost\<close> computes, every cell \<open>(i, j)\<close> with
  \<open>j \<le> i\<close> holds cost 0 and the split index \<open>-1\<close> (no split). A cell with \<open>j = i + 1\<close>
  spans one cut: it holds the length of the piece that this cut divides, and the split
  index \<open>i\<close>.
\<close>

theorem bsc_table_base_cells:
  "\<exists>dp. bsc_table L cuts = Inr dp
     \<and> (\<forall>i \<le> length cuts. \<forall>j \<le> length cuts.
           (j \<le> i \<longrightarrow> dp ! i ! j = (Fin 0, - 1))
         \<and> (j = i + 1 \<longrightarrow> dp ! i ! j = (Fin (pos_end L cuts j - pos_start cuts i), int i)))"
proof -
  obtain dp where dp: "bsc_table L cuts = Inr dp" "bsc_inv L cuts (Suc (length cuts)) 0 dp"
    using bsc_table_inv by blast
  have "dp ! i ! j = (Fin 0, - 1)" if "i \<le> length cuts" "j \<le> i" for i j
    using dp(2) that by (simp add: bsc_inv_def)
  moreover have "dp ! i ! Suc i = (Fin (pos_end L cuts (Suc i) - pos_start cuts i), int i)"
    if "Suc i \<le> length cuts" for i
  proof -
    have d: "bsc_done (Suc (length cuts)) 0 i (Suc i)"
      using that by (auto simp add: bsc_done_def)
    have "fst (dp ! i ! Suc i) = Fin (bsc_opt L cuts i (Suc i))
          \<and> int i \<le> snd (dp ! i ! Suc i) \<and> snd (dp ! i ! Suc i) < int (Suc i)"
      by (rule bsc_inv_done[OF dp(2) _ _ d]) (use that in simp_all)
    then show ?thesis by (cases "dp ! i ! Suc i") (simp add: bsc_opt_adjacent)
  qed
  ultimately show ?thesis using dp(1) by simp
qed

theorem bsc_table_base_cells_witness:
  "\<exists>dp. bsc_table 20 [2, 8, 10] = Inr dp
     \<and> dp ! 1 ! 1 = (Fin 0, - 1) \<and> dp ! 2 ! 0 = (Fin 0, - 1) \<and> dp ! 1 ! 2 = (Fin 8, 1)"
proof -
  obtain dp where dp: "bsc_table 20 [2, 8, 10] = Inr dp"
    and c: "\<forall>i \<le> length [2, 8, 10 :: int]. \<forall>j \<le> length [2, 8, 10 :: int].
           (j \<le> i \<longrightarrow> dp ! i ! j = (Fin 0, - 1))
         \<and> (j = i + 1 \<longrightarrow> dp ! i ! j
               = (Fin (pos_end 20 [2, 8, 10] j - pos_start [2, 8, 10] i), int i))"
    using bsc_table_base_cells[of 20 "[2, 8, 10]"] by blast
  have "dp ! 1 ! 1 = (Fin 0, - 1)" using c[rule_format, of 1 1] by simp
  moreover have "dp ! 2 ! 0 = (Fin 0, - 1)" using c[rule_format, of 2 0] by simp
  moreover have "dp ! 1 ! 2 = (Fin 8, 1)"
    using c[rule_format, of 1 2] by (simp add: pos_end_def pos_start_def)
  ultimately show ?thesis using dp by simp
qed

section \<open>find_least_seam: the table after the loops\<close>

lemma for_loop_upto_inv:
  assumes "P a s" and "a \<le> b + 1"
    and "\<And>t s. a \<le> t \<Longrightarrow> t \<le> b \<Longrightarrow> P t s \<Longrightarrow> \<exists>s'. body t s = Inr s' \<and> P (t + 1) s'"
  shows "\<exists>s'. for_loop [a .. b] body s = Inr s' \<and> P (b + 1) s'"
  using assms
proof (induction "nat (b + 1 - a)" arbitrary: a s)
  case 0
  then have "a = b + 1" by simp
  then show ?case using 0 by simp
next
  case (Suc k)
  then have le: "a \<le> b" by simp
  from Suc.prems(3)[OF order_refl le Suc.prems(1)]
  obtain s1 where s1: "body a s = Inr s1" "P (a + 1) s1" by blast
  have "\<exists>s'. for_loop [a + 1 .. b] body s1 = Inr s' \<and> P (b + 1) s'"
  proof (rule Suc.hyps(1))
    show "k = nat (b + 1 - (a + 1))" using Suc.hyps(2) by simp
    show "P (a + 1) s1" by (rule s1)
    show "a + 1 \<le> b + 1" using le by simp
    show "\<And>t s. a + 1 \<le> t \<Longrightarrow> t \<le> b \<Longrightarrow> P t s \<Longrightarrow> \<exists>s'. body t s = Inr s' \<and> P (t + 1) s'"
      using Suc.prems(3) by simp
  qed
  then show ?case using le s1 by (subst upto.simps) simp
qed

lemma py_min2_min: "py_min2 a b = min a b"
  by (auto simp add: py_min2_def min_def)

lemma pynum_le_PInf [simp]: "x \<le> PInf"
  by (cases x) simp_all

lemma min_PInf [simp]: "min PInf x = x"
  by (simp add: min_def) (cases x; simp)

lemma py_index_nonneg: "0 \<le> i \<Longrightarrow> nat i < length xs \<Longrightarrow> py_index xs i = Inr (xs ! nat i)"
  by (simp add: py_index_def)

lemma py_index_wrap:
  "- 1 \<le> i \<Longrightarrow> i < int (length xs) \<Longrightarrow> 0 < length xs \<Longrightarrow>
   py_index xs i = Inr (xs ! nat (i mod int (length xs)))"
proof (cases "0 \<le> i")
  case True
  assume "i < int (length xs)"
  then show ?thesis using True by (simp add: py_index_def)
next
  case False
  assume "- 1 \<le> i" "0 < length xs"
  then have i: "i = - 1" using False by simp
  have "(- 1) mod int (length xs) = int (length xs) - 1"
    using \<open>0 < length xs\<close> by (simp add: zmod_minus1)
  moreover have "1 \<le> int (length xs)" using \<open>0 < length xs\<close> by linarith
  ultimately show ?thesis using i by (simp add: py_index_def)
qed

text \<open>The loop over \<open>k\<close> for the cell in 0-based row \<open>r > 0\<close> and column \<open>c\<close>.\<close>

lemma seam_k_loop:
  assumes len: "length dp = m" "\<forall>a < m. length (dp ! a) = n"
    and r: "0 < r" "r < m" and c: "c < n"
  shows "for_loop [- 1 .. 1] (seam_k_body dp (int n) (int r + 1) (int c + 1)) PInf
         = Inr (Min ((\<lambda>k. dp ! (r - 1) ! nat (k mod int n))
                     ` {k \<in> {int c - 1, int c, int c + 1}. - 1 \<le> k \<and> k \<le> int n - 2}))"
proof -
  let ?row = "dp ! (r - 1)"
  let ?f = "\<lambda>k. ?row ! nat (k mod int n)"
  have lrow: "length ?row = n" using len r by simp
  have row: "py_index dp (int r + 1 - 2) = Inr ?row"
    using r len by (simp add: py_index_nonneg nat_diff_distrib')
  have idx: "py_index ?row k = Inr (?f k)" if "- 1 \<le> k" "k < int n" for k
  proof -
    have pos: "0 < length ?row" using c lrow by simp
    have "k < int (length ?row)" using that lrow by simp
    from py_index_wrap[OF that(1) this pos] show ?thesis by (simp only: lrow)
  qed
  have body: "seam_k_body dp (int n) (int r + 1) (int c + 1) k v
              = (if - 1 \<le> k + int c \<and> k + int c \<le> int n - 2
                 then Inr (min v (?f (k + int c))) else Inr v)" for k v
  proof (cases "- 1 \<le> k + int c \<and> k + int c \<le> int n - 2")
    case True
    then have "py_index ?row (k + (int c + 1) - 1) = Inr (?f (k + int c))"
      using idx[of "k + int c"] by (simp add: algebra_simps)
    then show ?thesis using True row by (simp add: seam_k_body_def py_min2_min)
  next
    case False
    then show ?thesis by (auto simp add: seam_k_body_def)
  qed
  have W: "{k \<in> {int c - 1, int c, int c + 1}. - 1 \<le> k \<and> k \<le> int n - 2}
        = {int c - 1} \<union> (if int c \<le> int n - 2 then {int c} else {})
                     \<union> (if int c + 1 \<le> int n - 2 then {int c + 1} else {})"
    using c by auto
  have loop: "for_loop [- 1 .. 1] (seam_k_body dp (int n) (int r + 1) (int c + 1)) PInf
      = Inr (let v1 = ?f (int c - 1);
                 v2 = (if int c \<le> int n - 2 then min v1 (?f (int c)) else v1)
             in (if int c + 1 \<le> int n - 2 then min v2 (?f (int c + 1)) else v2))"
  proof -
    have e: "1 + int c = int c + 1" by simp
    show ?thesis using c by (simp add: body upto_rec1 Let_def e)
  qed
  show ?thesis unfolding loop W Let_def
    by (auto simp add: min.commute min.left_commute)
qed


lemma seam_inv_update:
  assumes inv: "seam_inv d m n r c dp" and r: "r < m" and c: "c < n"
    and v: "v = seam_val d n r c"
  shows "seam_inv d m n r (Suc c) (dp[r := (dp ! r)[c := v]])"
  unfolding seam_inv_def
proof (intro conjI allI impI)
  have len: "length dp = m" "\<forall>a < m. length (dp ! a) = n"
    using inv by (simp_all add: seam_inv_def)
  show "length (dp[r := (dp ! r)[c := v]]) = m" using len by simp
  fix a assume a: "a < m"
  show "length (dp[r := (dp ! r)[c := v]] ! a) = n"
    using a len by (simp add: length2_update)
  fix b assume b: "b < n" and w: "a < r \<or> a = r \<and> b < Suc c"
  have upd: "dp[r := (dp ! r)[c := v]] ! a ! b = (if a = r \<and> b = c then v else dp ! a ! b)"
    using a r c len by (subst nth2_update) auto
  show "dp[r := (dp ! r)[c := v]] ! a ! b = seam_val d n a b"
  proof (cases "a = r \<and> b = c")
    case True
    then show ?thesis using upd v by simp
  next
    case False
    then have "a < r \<or> a = r \<and> b < c" using w by auto
    then have "dp ! a ! b = seam_val d n a b"
      using inv a b unfolding seam_inv_def by blast
    then show ?thesis using upd False by simp
  qed
qed

lemma seam_cell_step:
  assumes inv: "seam_inv d m n r c dp" and r: "r < m" and c: "c < n"
    and grid: "r < length d" "c < length (d ! r)"
  shows "\<exists>dp'. seam_cell d (int n) (int r + 1) (int c + 1) dp = Inr dp'
           \<and> seam_inv d m n r (Suc c) dp'"
proof -
  have len: "length dp = m" "\<forall>a < m. length (dp ! a) = n"
    using inv by (simp_all add: seam_inv_def)
  have dv: "py_index d (int r + 1 - 1) = Inr (d ! r)"
       "py_index (d ! r) (int c + 1 - 1) = Inr (d ! r ! c)"
    using grid by (simp_all add: py_index_nonneg)
  have wr: "set2_e dp (nat (int r + 1 - 1)) (nat (int c + 1 - 1)) v
            = Inr (dp[r := (dp ! r)[c := v]])" for v
    using len r c by (simp add: set2_e_in)
  show ?thesis
  proof (cases r)
    case 0
    have "seam_cell d (int n) (int r + 1) (int c + 1) dp
          = Inr (dp[r := (dp ! r)[c := Fin (d ! r ! c)]])"
      unfolding seam_cell_def dv wr bind_e_Inr using 0 by simp
    moreover have "seam_inv d m n r (Suc c) (dp[r := (dp ! r)[c := Fin (d ! r ! c)]])"
      using inv r c by (rule seam_inv_update) (simp add: 0)
    ultimately show ?thesis by simp
  next
    case (Suc r')
    let ?W = "{k \<in> {int c - 1, int c, int c + 1}. - 1 \<le> k \<and> k \<le> int n - 2}"
    have prev: "dp ! (r - 1) ! nat (k mod int n) = seam_val d n r' (nat (k mod int n))" for k
    proof -
      have "nat (k mod int n) < n" using c by (simp add: nat_less_iff)
      then show ?thesis using inv r Suc unfolding seam_inv_def by simp
    qed
    have loop: "for_loop [- 1 .. 1] (seam_k_body dp (int n) (int r + 1) (int c + 1)) PInf
          = Inr (Min ((\<lambda>k. seam_val d n r' (nat (k mod int n))) ` ?W))"
    proof -
      have pos: "0 < r" using Suc by simp
      have img: "(\<lambda>k. dp ! (r - 1) ! nat (k mod int n))
                 = (\<lambda>k. seam_val d n r' (nat (k mod int n)))"
        by (rule ext) (rule prev)
      show ?thesis using seam_k_loop[OF len pos r c] unfolding img .
    qed
    have "seam_cell d (int n) (int r + 1) (int c + 1) dp
          = Inr (dp[r := (dp ! r)[c := seam_val d n r c]])"
      unfolding seam_cell_def loop dv wr bind_e_Inr using Suc by simp
    moreover have "seam_inv d m n r (Suc c) (dp[r := (dp ! r)[c := seam_val d n r c]])"
      using inv r c by (rule seam_inv_update) simp
    ultimately show ?thesis by simp
  qed
qed

lemma seam_row_step:
  assumes inv: "seam_inv d m n r 0 dp" and r: "r < m"
    and grid: "r < length d" "n \<le> length (d ! r)"
  shows "\<exists>dp'. for_loop [1 .. int n] (seam_cell d (int n) (int r + 1)) dp = Inr dp'
           \<and> seam_inv d m n (Suc r) 0 dp'"
proof -
  have "\<exists>dp'. for_loop [1 .. int n] (seam_cell d (int n) (int r + 1)) dp = Inr dp'
           \<and> seam_inv d m n r (nat (int n + 1 - 1)) dp'"
  proof (rule for_loop_upto_inv[where P = "\<lambda>j. seam_inv d m n r (nat (j - 1))"])
    show "seam_inv d m n r (nat (1 - 1)) dp" using inv by simp
    show "1 \<le> int n + 1" by simp
  next
    fix t s assume t: "1 \<le> t" "t \<le> int n" and s: "seam_inv d m n r (nat (t - 1)) s"
    have "\<exists>dp'. seam_cell d (int n) (int r + 1) (int (nat (t - 1)) + 1) s = Inr dp'
            \<and> seam_inv d m n r (Suc (nat (t - 1))) dp'"
      using s r by (rule seam_cell_step) (use t grid in auto)
    moreover have "int (nat (t - 1)) + 1 = t" "Suc (nat (t - 1)) = nat (t + 1 - 1)"
      using t by simp_all
    ultimately show "\<exists>s'. seam_cell d (int n) (int r + 1) t s = Inr s'
            \<and> seam_inv d m n r (nat (t + 1 - 1)) s'"
      by simp
  qed
  moreover have "seam_inv d m n (Suc r) 0 dp'" if "seam_inv d m n r n dp'" for dp'
    using that unfolding seam_inv_def by (auto simp add: less_Suc_eq)
  ultimately show ?thesis by auto
qed

lemma seam_table_val:
  assumes grid: "m \<le> length d" "\<forall>r < m. n \<le> length (d ! r)"
  shows "\<exists>dp. seam_table d (int m) (int n) = Inr dp \<and> seam_inv d m n m 0 dp"
proof -
  have "\<exists>dp. for_loop [1 .. int m] (\<lambda>i. for_loop [1 .. int n] (seam_cell d (int n) i))
               (replicate m (replicate n (Fin 0))) = Inr dp
          \<and> seam_inv d m n (nat (int m + 1 - 1)) 0 dp"
  proof (rule for_loop_upto_inv[where P = "\<lambda>i. seam_inv d m n (nat (i - 1)) 0"])
    show "seam_inv d m n (nat (1 - 1)) 0 (replicate m (replicate n (Fin 0)))"
      by (simp add: seam_inv_def)
    show "1 \<le> int m + 1" by simp
  next
    fix t s assume t: "1 \<le> t" "t \<le> int m" and s: "seam_inv d m n (nat (t - 1)) 0 s"
    have "\<exists>dp'. for_loop [1 .. int n] (seam_cell d (int n) (int (nat (t - 1)) + 1)) s = Inr dp'
            \<and> seam_inv d m n (Suc (nat (t - 1))) 0 dp'"
      using s by (rule seam_row_step) (use t grid in auto)
    moreover have "int (nat (t - 1)) + 1 = t" "Suc (nat (t - 1)) = nat (t + 1 - 1)"
      using t by simp_all
    ultimately show "\<exists>s'. for_loop [1 .. int n] (seam_cell d (int n) t) s = Inr s'
            \<and> seam_inv d m n (nat (t + 1 - 1)) 0 s'"
      by simp
  qed
  then show ?thesis by (simp add: seam_table_def)
qed


lemma seam_inv_final:
  assumes "seam_inv d m n m 0 dp" "a < m" "b < n"
  shows "dp ! a ! b = seam_val d n a b"
  using assms unfolding seam_inv_def by blast

lemma seam_cell_window:
  assumes inv: "seam_inv d m n m 0 dp" and that: "0 < i" "i < m" "j < n"
  shows "dp ! i ! j = padd (Fin (d ! i ! j))
             (Min ((\<lambda>k. dp ! (i - 1) ! nat (k mod int n))
                    ` {k \<in> {int j - 1, int j, int j + 1}. - 1 \<le> k \<and> k \<le> int n - 2}))"
proof -
  from that(1) obtain i' where i': "i = Suc i'" by (cases i) auto
  have "dp ! i' ! nat (k mod int n) = seam_val d n i' (nat (k mod int n))" for k
  proof (rule seam_inv_final[OF inv])
    show "i' < m" using that i' by simp
    show "nat (k mod int n) < n" using that(3) by (simp add: nat_less_iff)
  qed
  then have img: "(\<lambda>k. dp ! (i - 1) ! nat (k mod int n))
               = (\<lambda>k. seam_val d n i' (nat (k mod int n)))"
    using i' by (intro ext) simp
  have "dp ! i ! j = seam_val d n (Suc i') j"
    using seam_inv_final[OF inv that(2,3)] i' by simp
  then show ?thesis unfolding img using i' by simp
qed

lemma seam_window_first:
  assumes "2 \<le> n"
  shows "(\<lambda>k. row ! nat (k mod int n))
            ` {k \<in> {int 0 - 1, int 0, int 0 + 1}. - 1 \<le> k \<and> k \<le> int n - 2}
          = {row ! (n - 1), row ! 0, row ! 1}"
proof -
  have W: "{k \<in> {int 0 - 1, int 0, int 0 + 1}. - 1 \<le> k \<and> k \<le> int n - 2}
             = (if n = 2 then {- 1, 0} else {- 1, 0, 1})"
    using assms by auto
  have m1: "nat ((- 1) mod int n) = n - 1"
    using assms by (simp add: zmod_minus1 nat_diff_distrib')
  show ?thesis
  proof (cases "n = 2")
    case True
    then show ?thesis unfolding W using m1 by auto
  next
    case False
    then have "(1::int) mod int n = 1" using assms by simp
    then show ?thesis unfolding W using m1 False by simp
  qed
qed

lemma seam_window_last:
  assumes "2 \<le> n"
  shows "(\<lambda>k. row ! nat (k mod int n))
            ` {k \<in> {int (n - 1) - 1, int (n - 1), int (n - 1) + 1}. - 1 \<le> k \<and> k \<le> int n - 2}
          = {row ! (n - 2)}"
proof -
  have W: "{k \<in> {int (n - 1) - 1, int (n - 1), int (n - 1) + 1}. - 1 \<le> k \<and> k \<le> int n - 2}
             = {int (n - 2)}"
    using assms by auto
  have "int (n - 2) mod int n = int (n - 2)"
    using assms by (intro mod_pos_pos_trivial) auto
  then show ?thesis unfolding W by simp
qed

lemma seam_val_fin:
  assumes n: "2 \<le> n"
  shows "c < n \<Longrightarrow> seam_val d n r c \<noteq> PInf"
proof (induction r arbitrary: c)
  case 0
  show ?case by simp
next
  case (Suc r)
  let ?W = "{k \<in> {int c - 1, int c, int c + 1}. - 1 \<le> k \<and> k \<le> int n - 2}"
  let ?S = "(\<lambda>k. seam_val d n r (nat (k mod int n))) ` ?W"
  have fin: "finite ?S" by simp
  have "int c - 1 \<in> ?W" using Suc.prems by simp
  then have ne: "?S \<noteq> {}" by blast
  have "Min ?S \<in> ?S" using fin ne by (rule Min_in)
  then obtain k where k: "Min ?S = seam_val d n r (nat (k mod int n))" by blast
  have "nat (k mod int n) < n" using n by (simp add: nat_less_iff)
  then have "seam_val d n r (nat (k mod int n)) \<noteq> PInf" by (rule Suc.IH)
  then obtain v where v: "Min ?S = Fin v" using k by (cases "Min ?S") auto
  have "seam_val d n (Suc r) c = padd (Fin (d ! Suc r ! c)) (Min ?S)"
    by (simp only: seam_val.simps)
  also have "\<dots> = padd (Fin (d ! Suc r ! c)) (Fin v)" by (simp only: v)
  finally show ?case by simp
qed
text \<open>
  C8: for a grid with \<open>m \<ge> 2\<close> rows and \<open>n \<ge> 2\<close> columns, the loops return a table of \<open>m\<close> rows
  of \<open>n\<close> finite numbers whose first row is the first row of the grid, and in which the cell
  of row \<open>i > 0\<close> and 0-based column \<open>j\<close> is the grid value plus the least value of the previous
  row over the indices \<open>j - 1\<close>, \<open>j\<close>, \<open>j + 1\<close> that lie in \<open>[-1, n - 2]\<close>, where the index \<open>-1\<close>
  is the last column. So column 0 reads the columns \<open>n - 1\<close>, 0 and 1 of the previous row, and
  column \<open>n - 1\<close> reads column \<open>n - 2\<close> only.
\<close>

theorem find_least_seam_window:
  assumes "2 \<le> m" "2 \<le> n" and grid: "m \<le> length d" "\<forall>r < m. n \<le> length (d ! r)"
  shows "\<exists>dp. seam_table d (int m) (int n) = Inr dp
     \<and> length dp = m
     \<and> (\<forall>i < m. length (dp ! i) = n)
     \<and> (\<forall>j < n. dp ! 0 ! j = Fin (d ! 0 ! j))
     \<and> (\<forall>i < m. \<forall>j < n. dp ! i ! j \<noteq> PInf)
     \<and> (\<forall>i j. 0 < i \<and> i < m \<and> j < n \<longrightarrow>
           dp ! i ! j = padd (Fin (d ! i ! j))
             (Min ((\<lambda>k. dp ! (i - 1) ! nat (k mod int n))
                    ` {k \<in> {int j - 1, int j, int j + 1}. - 1 \<le> k \<and> k \<le> int n - 2})))
     \<and> (\<forall>i. 0 < i \<and> i < m \<longrightarrow>
           dp ! i ! 0 = padd (Fin (d ! i ! 0))
             (Min {dp ! (i - 1) ! (n - 1), dp ! (i - 1) ! 0, dp ! (i - 1) ! 1})
         \<and> dp ! i ! (n - 1) = padd (Fin (d ! i ! (n - 1))) (dp ! (i - 1) ! (n - 2)))"
proof -
  obtain dp where dp: "seam_table d (int m) (int n) = Inr dp" and inv: "seam_inv d m n m 0 dp"
    using seam_table_val[OF grid] by blast
  have n0: "0 < n" "n - 1 < n" using assms(2) by simp_all
  show ?thesis
  proof (intro exI[of _ dp] conjI allI impI)
    show "seam_table d (int m) (int n) = Inr dp" by (rule dp)
  next
    show "length dp = m" using inv unfolding seam_inv_def by blast
  next
    fix i assume "i < m"
    then show "length (dp ! i) = n" using inv unfolding seam_inv_def by blast
  next
    fix j assume j: "j < n"
    have "0 < m" using assms(1) by simp
    then have "dp ! 0 ! j = seam_val d n 0 j" using j by (rule seam_inv_final[OF inv])
    then show "dp ! 0 ! j = Fin (d ! 0 ! j)" by simp
  next
    fix i j assume i: "i < m" and j: "j < n"
    have "dp ! i ! j = seam_val d n i j" using i j by (rule seam_inv_final[OF inv])
    then show "dp ! i ! j \<noteq> PInf" using seam_val_fin[OF assms(2) j] by simp
  next
    fix i j assume "0 < i \<and> i < m \<and> j < n"
    then show "dp ! i ! j = padd (Fin (d ! i ! j))
             (Min ((\<lambda>k. dp ! (i - 1) ! nat (k mod int n))
                    ` {k \<in> {int j - 1, int j, int j + 1}. - 1 \<le> k \<and> k \<le> int n - 2}))"
      using seam_cell_window[OF inv] by simp
  next
    fix i assume i: "0 < i \<and> i < m"
    then have "dp ! i ! 0 = padd (Fin (d ! i ! 0))
             (Min ((\<lambda>k. dp ! (i - 1) ! nat (k mod int n))
                    ` {k \<in> {int 0 - 1, int 0, int 0 + 1}. - 1 \<le> k \<and> k \<le> int n - 2}))"
      using seam_cell_window[OF inv _ _ n0(1)] by simp
    then show "dp ! i ! 0 = padd (Fin (d ! i ! 0))
             (Min {dp ! (i - 1) ! (n - 1), dp ! (i - 1) ! 0, dp ! (i - 1) ! 1})"
      unfolding seam_window_first[OF assms(2)] .
  next
    fix i assume i: "0 < i \<and> i < m"
    then have "dp ! i ! (n - 1) = padd (Fin (d ! i ! (n - 1)))
             (Min ((\<lambda>k. dp ! (i - 1) ! nat (k mod int n))
                    ` {k \<in> {int (n - 1) - 1, int (n - 1), int (n - 1) + 1}.
                         - 1 \<le> k \<and> k \<le> int n - 2}))"
      using seam_cell_window[OF inv _ _ n0(2)] by simp
    then show "dp ! i ! (n - 1) = padd (Fin (d ! i ! (n - 1))) (dp ! (i - 1) ! (n - 2))"
      unfolding seam_window_last[OF assms(2)] by simp
  qed
qed

theorem find_least_seam_window_witness:
  "\<exists>dp. seam_table [[5, 5, 1], [0, 9, 9]] 2 3 = Inr dp
     \<and> dp ! 0 ! 0 = Fin 5 \<and> dp ! 0 ! 1 = Fin 5 \<and> dp ! 0 ! 2 = Fin 1
     \<and> dp ! 1 ! 0 = Fin 1 \<and> dp ! 1 ! 2 = Fin 14"
proof -
  have h: "(2::nat) \<le> 2" "(2::nat) \<le> 3" "2 \<le> length [[5, 5, 1], [0, 9, 9 :: int]]"
    "\<forall>r < 2. 3 \<le> length ([[5, 5, 1], [0, 9, 9 :: int]] ! r)"
    by (simp_all add: less_Suc_eq numeral_2_eq_2)
  from find_least_seam_window[OF h] obtain dp where
    dp: "seam_table [[5, 5, 1], [0, 9, 9]] (int 2) (int 3) = Inr dp"
    and r: "\<forall>j < 3. dp ! 0 ! j = Fin ([[5, 5, 1], [0, 9, 9]] ! 0 ! j)"
    and f: "\<forall>i. 0 < i \<and> i < 2 \<longrightarrow>
           dp ! i ! 0 = padd (Fin ([[5, 5, 1], [0, 9, 9]] ! i ! 0))
             (Min {dp ! (i - 1) ! (3 - 1), dp ! (i - 1) ! 0, dp ! (i - 1) ! 1})
         \<and> dp ! i ! (3 - 1) = padd (Fin ([[5, 5, 1], [0, 9, 9]] ! i ! (3 - 1))) (dp ! (i - 1) ! (3 - 2))"
    by blast
  have r0: "dp ! 0 ! 0 = Fin 5" and r1: "dp ! 0 ! 1 = Fin 5" and r2: "dp ! 0 ! 2 = Fin 1"
    using r by simp_all
  have f1: "dp ! 1 ! 0 = padd (Fin ([[5, 5, 1], [0, 9, 9]] ! 1 ! 0))
             (Min {dp ! (1 - 1) ! (3 - 1), dp ! (1 - 1) ! 0, dp ! (1 - 1) ! 1})
         \<and> dp ! 1 ! (3 - 1) = padd (Fin ([[5, 5, 1], [0, 9, 9]] ! 1 ! (3 - 1))) (dp ! (1 - 1) ! (3 - 2))"
    using f by simp
  have r1': "dp ! 0 ! Suc 0 = Fin 5" using r1 by simp
  have "dp ! 1 ! 0 = Fin 1" and "dp ! 1 ! 2 = Fin 14"
    using f1 by (simp_all add: r0 r1' r2 min_def)
  then show ?thesis using dp r0 r1 r2 by simp
qed
section \<open>find_least_seam: monotonicity\<close>

lemma bind_e_rel:
  assumes "rel_sum (=) A x y" and "\<And>u v. A u v \<Longrightarrow> rel_sum (=) B (f u) (g v)"
  shows "rel_sum (=) B (bind_e x f) (bind_e y g)"
  using assms by (cases x; cases y) (simp_all add: bind_e_def)

lemma nth_e_rel: "list_all2 A xs ys \<Longrightarrow> rel_sum (=) A (nth_e xs i) (nth_e ys i)"
  by (auto simp add: nth_e_def list_all2_lengthD list_all2_nthD)

lemma py_index_rel: "list_all2 A xs ys \<Longrightarrow> rel_sum (=) A (py_index xs i) (py_index ys i)"
proof -
  assume r: "list_all2 A xs ys"
  then have len: "length xs = length ys" by (rule list_all2_lengthD)
  show ?thesis
  proof (cases "0 \<le> i")
    case True
    then show ?thesis using nth_e_rel[OF r] by (simp add: py_index_def)
  next
    case False
    show ?thesis
    proof (cases "- int (length xs) \<le> i")
      case True
      then have "nat (int (length xs) + i) < length xs" using False by linarith
      then have "A (xs ! nat (int (length xs) + i)) (ys ! nat (int (length xs) + i))"
        using r by (rule list_all2_nthD[rotated])
      then show ?thesis using False True len by (simp add: py_index_def)
    next
      case F2: False
      then show ?thesis using False len by (simp add: py_index_def)
    qed
  qed
qed

lemma set_e_rel:
  "list_all2 A xs ys \<Longrightarrow> A u v \<Longrightarrow> rel_sum (=) (list_all2 A) (set_e xs i u) (set_e ys i v)"
  by (auto simp add: set_e_def list_all2_lengthD intro: list_all2_update_cong)

lemma set2_e_rel:
  assumes "list_all2 (list_all2 A) xs ys" "A u v"
  shows "rel_sum (=) (list_all2 (list_all2 A)) (set2_e xs r c u) (set2_e ys r c v)"
  unfolding set2_e_def
  by (intro bind_e_rel[where A = "list_all2 A"] bind_e_rel[where A = "list_all2 (list_all2 A)"]
        nth_e_rel set_e_rel assms)

lemma for_loop_rel:
  assumes "\<And>x s t. A s t \<Longrightarrow> rel_sum (=) A (f x s) (g x t)" and "A s t"
  shows "rel_sum (=) A (for_loop xs f s) (for_loop xs g t)"
  using assms(2)
proof (induction xs arbitrary: s t)
  case Nil
  then show ?case by simp
next
  case (Cons x xs)
  from assms(1)[OF Cons.prems, of x] show ?case
    by (cases "f x s"; cases "g x t") (simp_all add: Cons.IH)
qed

lemma py_min2_mono: "a \<le> a' \<Longrightarrow> b \<le> b' \<Longrightarrow> py_min2 a b \<le> py_min2 a' b'"
  by (simp add: py_min2_min min.coboundedI1 min.coboundedI2)

lemma padd_mono: "x \<le> y \<Longrightarrow> u \<le> v \<Longrightarrow> padd (Fin x) u \<le> padd (Fin y) v"
  by (cases u; cases v) simp_all

lemma fold_py_min2_mono:
  "list_all2 (\<le>) xs ys \<Longrightarrow> a \<le> b \<Longrightarrow>
   fold (\<lambda>y acc. py_min2 acc y) xs a \<le> fold (\<lambda>y acc. py_min2 acc y) ys b"
proof (induction xs ys arbitrary: a b rule: list_all2_induct)
  case Nil
  then show ?case by simp
next
  case (Cons x xs y ys)
  then show ?case by (simp add: py_min2_mono)
qed

lemma py_min_rel: "list_all2 (\<le>) xs ys \<Longrightarrow> rel_sum (=) (\<le>) (py_min xs) (py_min ys)"
  by (cases xs; cases ys) (simp_all add: py_min_def fold_py_min2_mono)


lemma seam_k_body_rel:
  assumes "list_all2 (list_all2 (\<le>)) dp dp'" "v \<le> v'"
  shows "rel_sum (=) (\<le>) (seam_k_body dp n i j k v) (seam_k_body dp' n i j k v')"
proof (cases "n > k + j \<and> k + j \<ge> 0")
  case True
  have "rel_sum (=) (\<le>)
          (bind_e (py_index dp (i - 2)) (\<lambda>row.
             bind_e (py_index row (k + j - 1)) (\<lambda>x. Inr (py_min2 v x))))
          (bind_e (py_index dp' (i - 2)) (\<lambda>row.
             bind_e (py_index row (k + j - 1)) (\<lambda>x. Inr (py_min2 v' x))))"
  proof (rule bind_e_rel[where A = "list_all2 (\<le>)"])
    show "rel_sum (=) (list_all2 (\<le>)) (py_index dp (i - 2)) (py_index dp' (i - 2))"
      using assms(1) by (rule py_index_rel)
  next
    fix row row' :: "pynum list" assume rr: "list_all2 (\<le>) row row'"
    show "rel_sum (=) (\<le>) (bind_e (py_index row (k + j - 1)) (\<lambda>x. Inr (py_min2 v x)))
            (bind_e (py_index row' (k + j - 1)) (\<lambda>x. Inr (py_min2 v' x)))"
    proof (rule bind_e_rel[where A = "(\<le>)"])
      show "rel_sum (=) (\<le>) (py_index row (k + j - 1)) (py_index row' (k + j - 1))"
        using rr by (rule py_index_rel)
    next
      fix x x' :: pynum assume "x \<le> x'"
      then show "rel_sum (=) (\<le>) (Inr (py_min2 v x)) (Inr (py_min2 v' x'))"
        using assms(2) by (simp add: py_min2_mono)
    qed
  qed
  then show ?thesis using True by (simp add: seam_k_body_def)
next
  case False
  then show ?thesis using assms(2) by (auto simp add: seam_k_body_def)
qed

lemma seam_write_rel:
  assumes g: "list_all2 (list_all2 (\<le>)) d d'" and t: "list_all2 (list_all2 (\<le>)) dp dp'"
    and v: "valid \<le> valid'"
  shows "rel_sum (=) (list_all2 (list_all2 (\<le>)))
           (bind_e (py_index d r) (\<lambda>drow. bind_e (py_index drow c) (\<lambda>x.
              set2_e dp a b (padd (Fin x) valid))))
           (bind_e (py_index d' r) (\<lambda>drow. bind_e (py_index drow c) (\<lambda>x.
              set2_e dp' a b (padd (Fin x) valid'))))"
proof (rule bind_e_rel[where A = "list_all2 (\<le>)"])
  show "rel_sum (=) (list_all2 (\<le>)) (py_index d r) (py_index d' r)"
    using g by (rule py_index_rel)
next
  fix row row' :: "int list" assume rr: "list_all2 (\<le>) row row'"
  show "rel_sum (=) (list_all2 (list_all2 (\<le>)))
          (bind_e (py_index row c) (\<lambda>x. set2_e dp a b (padd (Fin x) valid)))
          (bind_e (py_index row' c) (\<lambda>x. set2_e dp' a b (padd (Fin x) valid')))"
  proof (rule bind_e_rel[where A = "(\<le>)"])
    show "rel_sum (=) (\<le>) (py_index row c) (py_index row' c)"
      using rr by (rule py_index_rel)
  next
    fix x x' :: int assume "x \<le> x'"
    then have "padd (Fin x) valid \<le> padd (Fin x') valid'" using v by (rule padd_mono)
    with t show "rel_sum (=) (list_all2 (list_all2 (\<le>)))
        (set2_e dp a b (padd (Fin x) valid)) (set2_e dp' a b (padd (Fin x') valid'))"
      by (rule set2_e_rel)
  qed
qed


lemma seam_cell_rel:
  assumes g: "list_all2 (list_all2 (\<le>)) d d'" and t: "list_all2 (list_all2 (\<le>)) dp dp'"
  shows "rel_sum (=) (list_all2 (list_all2 (\<le>))) (seam_cell d n i j dp) (seam_cell d' n i j dp')"
proof (cases "i = 1")
  case True
  have "Fin 0 \<le> Fin 0" by simp
  from seam_write_rel[OF g t this, of "i - 1" "j - 1" "nat (i - 1)" "nat (j - 1)"]
  show ?thesis using True by (simp add: seam_cell_def)
next
  case False
  have "rel_sum (=) (list_all2 (list_all2 (\<le>)))
     (bind_e (for_loop [- 1 .. 1] (seam_k_body dp n i j) PInf) (\<lambda>valid.
        bind_e (py_index d (i - 1)) (\<lambda>drow. bind_e (py_index drow (j - 1)) (\<lambda>x.
          set2_e dp (nat (i - 1)) (nat (j - 1)) (padd (Fin x) valid)))))
     (bind_e (for_loop [- 1 .. 1] (seam_k_body dp' n i j) PInf) (\<lambda>valid.
        bind_e (py_index d' (i - 1)) (\<lambda>drow. bind_e (py_index drow (j - 1)) (\<lambda>x.
          set2_e dp' (nat (i - 1)) (nat (j - 1)) (padd (Fin x) valid)))))"
  proof (rule bind_e_rel[where A = "(\<le>)"])
    show "rel_sum (=) (\<le>) (for_loop [- 1 .. 1] (seam_k_body dp n i j) PInf)
            (for_loop [- 1 .. 1] (seam_k_body dp' n i j) PInf)"
    proof (rule for_loop_rel)
      show "PInf \<le> PInf" by simp
    next
      fix k and v v' :: pynum assume "v \<le> v'"
      with t show "rel_sum (=) (\<le>) (seam_k_body dp n i j k v) (seam_k_body dp' n i j k v')"
        by (rule seam_k_body_rel)
    qed
  next
    fix valid valid' :: pynum assume "valid \<le> valid'"
    with g t show "rel_sum (=) (list_all2 (list_all2 (\<le>)))
        (bind_e (py_index d (i - 1)) (\<lambda>drow. bind_e (py_index drow (j - 1)) (\<lambda>x.
          set2_e dp (nat (i - 1)) (nat (j - 1)) (padd (Fin x) valid))))
        (bind_e (py_index d' (i - 1)) (\<lambda>drow. bind_e (py_index drow (j - 1)) (\<lambda>x.
          set2_e dp' (nat (i - 1)) (nat (j - 1)) (padd (Fin x) valid'))))"
      by (rule seam_write_rel)
  qed
  then show ?thesis using False by (simp add: seam_cell_def)
qed

lemma seam_table_rel:
  assumes g: "list_all2 (list_all2 (\<le>)) d d'"
  shows "rel_sum (=) (list_all2 (list_all2 (\<le>))) (seam_table d m n) (seam_table d' m n)"
  unfolding seam_table_def
proof (rule for_loop_rel)
  show "list_all2 (list_all2 (\<le>)) (replicate (nat m) (replicate (nat n) (Fin 0)))
          (replicate (nat m) (replicate (nat n) (Fin 0)))"
    by (simp add: list_all2_refl)
next
  fix i and s t :: "pynum list list" assume st: "list_all2 (list_all2 (\<le>)) s t"
  show "rel_sum (=) (list_all2 (list_all2 (\<le>)))
          (for_loop [1 .. n] (seam_cell d n i) s) (for_loop [1 .. n] (seam_cell d' n i) t)"
  proof (rule for_loop_rel)
    show "list_all2 (list_all2 (\<le>)) s t" by (rule st)
  next
    fix j and s t :: "pynum list list" assume "list_all2 (list_all2 (\<le>)) s t"
    with g show "rel_sum (=) (list_all2 (list_all2 (\<le>))) (seam_cell d n i j s) (seam_cell d' n i j t)"
      by (rule seam_cell_rel)
  qed
qed

lemma find_least_seam_rel:
  assumes g: "list_all2 (list_all2 (\<le>)) d d'"
  shows "rel_sum (=) (\<le>) (find_least_seam d m n) (find_least_seam d' m n)"
  unfolding find_least_seam_def
proof (rule bind_e_rel[where A = "list_all2 (list_all2 (\<le>))"])
  show "rel_sum (=) (list_all2 (list_all2 (\<le>))) (seam_table d m n) (seam_table d' m n)"
    using g by (rule seam_table_rel)
next
  fix dp dp' :: "pynum list list" assume t: "list_all2 (list_all2 (\<le>)) dp dp'"
  show "rel_sum (=) (\<le>) (bind_e (py_index dp (m - 1)) py_min) (bind_e (py_index dp' (m - 1)) py_min)"
  proof (rule bind_e_rel[where A = "list_all2 (\<le>)"])
    show "rel_sum (=) (list_all2 (\<le>)) (py_index dp (m - 1)) (py_index dp' (m - 1))"
      using t by (rule py_index_rel)
  qed (rule py_min_rel)
qed

lemma grid_update_le:
  assumes "a < length d" "b < length (d ! a)" "d ! a ! b \<le> (v::int)"
  shows "list_all2 (list_all2 (\<le>)) d (d[a := (d ! a)[b := v]])"
proof -
  have "list_all2 (\<le>) (d ! a) ((d ! a)[b := v])"
    using assms(2,3) by (auto simp add: list_all2_conv_all_nth nth_list_update)
  then show ?thesis
    using assms(1) by (auto simp add: list_all2_conv_all_nth nth_list_update)
qed

text \<open>
  C7: \<^verbatim>\<open>find_least_seam\<close> is monotone in every grid entry. When one cell of the grid is
  replaced by a larger value, a run that returned a number still returns a number, and not
  a smaller one; a run that raised an exception raises the same exception.
\<close>

theorem find_least_seam_mono:
  assumes "a < length d" "b < length (d ! a)" "d ! a ! b \<le> v"
  shows "(\<forall>r. find_least_seam d m n = Inr r \<longrightarrow>
            (\<exists>r'. find_least_seam (d[a := (d ! a)[b := v]]) m n = Inr r' \<and> r \<le> r'))
       \<and> (\<forall>e. find_least_seam d m n = Inl e \<longrightarrow>
            find_least_seam (d[a := (d ! a)[b := v]]) m n = Inl e)"
proof -
  have "rel_sum (=) (\<le>) (find_least_seam d m n) (find_least_seam (d[a := (d ! a)[b := v]]) m n)"
    using grid_update_le[OF assms] by (rule find_least_seam_rel)
  then show ?thesis
    by (cases "find_least_seam d m n"; cases "find_least_seam (d[a := (d ! a)[b := v]]) m n")
       simp_all
qed

theorem find_least_seam_mono_witness:
  "find_least_seam [[1, 2, 3], [4, 5, 6], [7, 8, 9]] 3 3 = Inr (Fin 12)
   \<and> (\<exists>r'. find_least_seam [[1, 2, 3], [4, 5, 6], [70, 8, 9]] 3 3 = Inr r' \<and> Fin 12 \<le> r')"
proof -
  have h: "2 < length [[1, 2, 3], [4, 5, 6], [7, 8, 9 :: int]]"
    "0 < length ([[1, 2, 3], [4, 5, 6], [7, 8, 9 :: int]] ! 2)"
    "[[1, 2, 3], [4, 5, 6], [7, 8, 9 :: int]] ! 2 ! 0 \<le> 70"
    by simp_all
  have e: "find_least_seam [[1, 2, 3], [4, 5, 6], [7, 8, 9]] 3 3 = Inr (Fin 12)"
    by code_simp
  from find_least_seam_mono[OF h, of 3 3] e show ?thesis by simp
qed


section \<open>break_string_cost against the search over all orders of cutting\<close>

subsection \<open>The cost of an order is the cost of its tree\<close>

lemma piece_lo_set: "piece_lo made y = Max (insert 0 {b \<in> set made. b \<le> y})"
  by (simp add: piece_lo_def)

lemma piece_hi_set: "piece_hi L made y = Min (insert L {b \<in> set made. y < b})"
  by (simp add: piece_hi_def)

lemma piece_lo_insert:
  assumes "set M' = insert x (set M)" "c \<in> set M" "(x \<le> c \<and> c \<le> y) \<or> y < x"
  shows "piece_lo M' y = piece_lo M y"
proof (cases "y < x")
  case True
  then have "{b \<in> set M'. b \<le> y} = {b \<in> set M. b \<le> y}" using assms(1) by auto
  then show ?thesis by (simp add: piece_lo_set)
next
  case False
  then have xc: "x \<le> c" "c \<le> y" using assms(3) by auto
  let ?S = "insert 0 {b \<in> set M. b \<le> y}"
  have eq: "insert 0 {b \<in> set M'. b \<le> y} = insert x ?S" using assms(1) xc by auto
  have fin: "finite ?S" "?S \<noteq> {}" by simp_all
  have "c \<in> ?S" using assms(2) xc by simp
  then have "c \<le> Max ?S" using fin by simp
  then have "max x (Max ?S) = Max ?S" using xc by simp
  then show ?thesis unfolding piece_lo_set eq using fin by simp
qed

lemma piece_hi_insert:
  assumes "set M' = insert x (set M)" "c \<in> set M" "(y < c \<and> c \<le> x) \<or> x \<le> y"
  shows "piece_hi L M' y = piece_hi L M y"
proof (cases "x \<le> y")
  case True
  then have "{b \<in> set M'. y < b} = {b \<in> set M. y < b}" using assms(1) by auto
  then show ?thesis by (simp add: piece_hi_set)
next
  case False
  then have xc: "y < c" "c \<le> x" using assms(3) by auto
  let ?S = "insert L {b \<in> set M. y < b}"
  have eq: "insert L {b \<in> set M'. y < b} = insert x ?S" using assms(1) xc by auto
  have fin: "finite ?S" "?S \<noteq> {}" by simp_all
  have "c \<in> ?S" using assms(2) xc by simp
  then have "Min ?S \<le> c" using fin by simp
  then have "min x (Min ?S) = Min ?S" using xc by simp
  then show ?thesis unfolding piece_hi_set eq using fin by simp
qed


lemma piece_lo_Cons:
  "piece_lo (c # M) x = (if c \<le> x then max c (piece_lo M x) else piece_lo M x)"
proof (cases "c \<le> x")
  case True
  then have "insert 0 {b \<in> set (c # M). b \<le> x} = insert c (insert 0 {b \<in> set M. b \<le> x})"
    by auto
  then show ?thesis using True by (simp add: piece_lo_set)
next
  case False
  then have "{b \<in> set (c # M). b \<le> x} = {b \<in> set M. b \<le> x}" by auto
  then show ?thesis using False by (simp add: piece_lo_set)
qed

lemma piece_hi_Cons:
  "piece_hi L (c # M) x = (if x < c then min c (piece_hi L M x) else piece_hi L M x)"
proof (cases "x < c")
  case True
  then have "insert L {b \<in> set (c # M). x < b} = insert c (insert L {b \<in> set M. x < b})"
    by auto
  then show ?thesis using True by (simp add: piece_hi_set)
next
  case False
  then have "{b \<in> set (c # M). x < b} = {b \<in> set M. x < b}" by auto
  then show ?thesis using False by (simp add: piece_hi_set)
qed

lemma cut_seq_cost_insert:
  assumes "set M' = insert x (set M)" "c \<in> set M"
    and "(x < c \<and> (\<forall>y \<in> set ys. c < y)) \<or> (c < x \<and> (\<forall>y \<in> set ys. y < c))"
  shows "cut_seq_cost L M' ys = cut_seq_cost L M ys"
  using assms
proof (induction ys arbitrary: M M')
  case Nil
  then show ?case by simp
next
  case (Cons y ys)
  have lo: "piece_lo M' y = piece_lo M y"
    using Cons.prems by (intro piece_lo_insert[where x = x and c = c]) auto
  have hi: "piece_hi L M' y = piece_hi L M y"
    using Cons.prems by (intro piece_hi_insert[where x = x and c = c]) auto
  have "cut_seq_cost L (y # M') ys = cut_seq_cost L (y # M) ys"
    using Cons.prems by (intro Cons.IH) auto
  then show ?case using lo hi by simp
qed

lemma cut_seq_cost_split:
  assumes "c \<in> set M" "c \<notin> set cs"
  shows "cut_seq_cost L M cs
         = cut_seq_cost L M (filter (\<lambda>x. x < c) cs) + cut_seq_cost L M (filter (\<lambda>x. c < x) cs)"
  using assms
proof (induction cs arbitrary: M)
  case Nil
  then show ?case by simp
next
  case (Cons x cs)
  have IH: "cut_seq_cost L (x # M) cs
         = cut_seq_cost L (x # M) (filter (\<lambda>x. x < c) cs)
           + cut_seq_cost L (x # M) (filter (\<lambda>x. c < x) cs)"
    using Cons.prems by (intro Cons.IH) auto
  show ?case
  proof (cases "x < c")
    case True
    have "cut_seq_cost L (x # M) (filter (\<lambda>x. c < x) cs) = cut_seq_cost L M (filter (\<lambda>x. c < x) cs)"
      using Cons.prems True by (intro cut_seq_cost_insert[where x = x and c = c]) auto
    then show ?thesis using True IH by simp
  next
    case False
    then have gt: "c < x" using Cons.prems by auto
    have "cut_seq_cost L (x # M) (filter (\<lambda>x. x < c) cs) = cut_seq_cost L M (filter (\<lambda>x. x < c) cs)"
      using Cons.prems gt by (intro cut_seq_cost_insert[where x = x and c = c]) auto
    then show ?thesis using gt False IH by simp
  qed
qed

lemma cut_seq_cost_tcost:
  assumes "distinct cs" "\<forall>c \<in> set cs. lo \<le> c \<and> c < hi"
    and "\<forall>x. lo \<le> x \<and> x < hi \<longrightarrow> piece_lo M x = lo \<and> piece_hi L M x = hi"
  shows "cut_seq_cost L M cs = tcost lo hi cs"
  using assms
proof (induction lo hi cs arbitrary: M rule: tcost.induct)
  case (1 lo hi)
  then show ?case by simp
next
  case (2 lo hi c cs)
  have c: "lo \<le> c" "c < hi" "c \<notin> set cs" "distinct cs" using "2.prems" by auto
  have here: "piece_hi L M c - piece_lo M c = hi - lo" using "2.prems"(3) c by simp
  have left: "cut_seq_cost L (c # M) (filter (\<lambda>x. x < c) cs) = tcost lo c (filter (\<lambda>x. x < c) cs)"
  proof (rule "2.IH"(1))
    show "distinct (filter (\<lambda>x. x < c) cs)" using c by simp
    show "\<forall>x \<in> set (filter (\<lambda>x. x < c) cs). lo \<le> x \<and> x < c" using "2.prems"(2) by auto
    show "\<forall>x. lo \<le> x \<and> x < c \<longrightarrow> piece_lo (c # M) x = lo \<and> piece_hi L (c # M) x = c"
      using "2.prems"(3) c by (auto simp add: piece_lo_Cons piece_hi_Cons)
  qed
  have right: "cut_seq_cost L (c # M) (filter (\<lambda>x. c < x) cs) = tcost c hi (filter (\<lambda>x. c < x) cs)"
  proof (rule "2.IH"(2))
    show "distinct (filter (\<lambda>x. c < x) cs)" using c by simp
    show "\<forall>x \<in> set (filter (\<lambda>x. c < x) cs). c \<le> x \<and> x < hi" using "2.prems"(2) by auto
    show "\<forall>x. c \<le> x \<and> x < hi \<longrightarrow> piece_lo (c # M) x = c \<and> piece_hi L (c # M) x = hi"
      using "2.prems"(3) c by (auto simp add: piece_lo_Cons piece_hi_Cons)
  qed
  have "cut_seq_cost L (c # M) cs
        = cut_seq_cost L (c # M) (filter (\<lambda>x. x < c) cs)
          + cut_seq_cost L (c # M) (filter (\<lambda>x. c < x) cs)"
    using c by (intro cut_seq_cost_split) auto
  then show ?case using here left right by simp
qed

lemma cut_seq_cost_whole:
  assumes "distinct p" "\<forall>c \<in> set p. 0 \<le> c \<and> c < L"
  shows "cut_seq_cost L [] p = tcost 0 L p"
  using assms by (rule cut_seq_cost_tcost) (simp add: piece_lo_def piece_hi_def)

subsection \<open>The orders of a set of cuts and the least cost\<close>

lemma perms_set: "set (perms xs) = {ys. mset ys = mset xs}"
proof (induction xs)
  case Nil
  then show ?case by simp
next
  case (Cons x xs)
  show ?case
  proof (intro equalityI subsetI)
    fix ys assume "ys \<in> set (perms (x # xs))"
    then obtain zs where zs: "ys \<in> set zs"
      and "zs \<in> set (map (\<lambda>p. map (\<lambda>i. take i p @ x # drop i p) [0 ..< Suc (length p)]) (perms xs))"
      unfolding perms.simps set_concat by blast
    then obtain p where p: "p \<in> set (perms xs)"
      and zsp: "zs = map (\<lambda>i. take i p @ x # drop i p) [0 ..< Suc (length p)]"
      unfolding set_map by blast
    from zs zsp have "ys \<in> (\<lambda>i. take i p @ x # drop i p) ` set [0 ..< Suc (length p)]"
      by (simp only: set_map)
    then obtain i where ys: "ys = take i p @ x # drop i p"
      by blast
    have "mset (take i p) + mset (drop i p) = mset p"
      by (simp flip: mset_append)
    then have "mset ys = add_mset x (mset p)" using ys by simp
    then show "ys \<in> {ys. mset ys = mset (x # xs)}" using p Cons.IH by simp
  next
    fix ys assume "ys \<in> {ys. mset ys = mset (x # xs)}"
    then have m: "mset ys = add_mset x (mset xs)" by simp
    then have "x \<in># mset ys" by simp
    then have "x \<in> set ys" by simp
    then obtain as bs where ys: "ys = as @ x # bs" by (auto dest: split_list)
    then have "mset (as @ bs) = mset xs" using m by simp
    then have p: "as @ bs \<in> set (perms xs)" using Cons.IH by simp
    have e: "take (length as) (as @ bs) @ x # drop (length as) (as @ bs) = ys"
      using ys by simp
    have l: "length as \<in> set [0 ..< Suc (length (as @ bs))]" by simp
    have "ys \<in> set (map (\<lambda>i. take i (as @ bs) @ x # drop i (as @ bs))
                      [0 ..< Suc (length (as @ bs))])"
      unfolding set_map using l e by (rule rev_image_eqI[OF _ sym])
    then have yin: "ys \<in> set (map (\<lambda>i. take i (as @ bs) @ x # drop i (as @ bs))
                      [0 ..< Suc (length (as @ bs))])" .
    have zin: "map (\<lambda>i. take i (as @ bs) @ x # drop i (as @ bs)) [0 ..< Suc (length (as @ bs))]
      \<in> set (map (\<lambda>p. map (\<lambda>i. take i p @ x # drop i p) [0 ..< Suc (length p)]) (perms xs))"
      unfolding set_map by (rule image_eqI[where x = "as @ bs"]) (rule refl, rule p)
    show "ys \<in> set (perms (x # xs))"
      unfolding perms.simps set_concat using zin yin by (rule UN_I)
  qed
qed

lemma perms_orders: "distinct xs \<Longrightarrow> set (perms xs) = orders (set xs)"
proof -
  assume d: "distinct xs"
  have "mset ys = mset xs \<longleftrightarrow> distinct ys \<and> set ys = set xs" for ys
  proof
    assume m: "mset ys = mset xs"
    then have "set ys = set xs" by (rule mset_eq_setD)
    moreover have "distinct ys" using mset_eq_imp_distinct_iff[OF m] d by simp
    ultimately show "distinct ys \<and> set ys = set xs" by simp
  next
    assume "distinct ys \<and> set ys = set xs"
    then show "mset ys = mset xs" using set_eq_iff_mset_eq_distinct[of ys xs] d by blast
  qed
  then show ?thesis by (simp add: perms_set orders_def)
qed

lemma finite_orders: "finite S \<Longrightarrow> finite (orders S)"
proof -
  assume f: "finite S"
  have "orders S \<subseteq> {xs. set xs \<subseteq> S \<and> length xs = card S}"
    by (auto simp add: orders_def distinct_card)
  moreover have "finite {xs. set xs \<subseteq> S \<and> length xs = card S}"
    using f by (rule finite_lists_length_eq)
  ultimately show ?thesis by (rule finite_subset)
qed

lemma orders_nonempty: "finite S \<Longrightarrow> orders S \<noteq> {}"
  using finite_distinct_list[of S] by (auto simp add: orders_def)

lemma best_le: "finite S \<Longrightarrow> p \<in> orders S \<Longrightarrow> best lo hi S \<le> tcost lo hi p"
  unfolding best_def by (intro Min_le) (auto simp add: finite_orders)

lemma best_attained: "finite S \<Longrightarrow> \<exists>p \<in> orders S. tcost lo hi p = best lo hi S"
proof -
  assume f: "finite S"
  have "Min (tcost lo hi ` orders S) \<in> tcost lo hi ` orders S"
    using f by (intro Min_in) (auto simp add: finite_orders orders_nonempty)
  then show ?thesis by (auto simp add: best_def)
qed

lemma best_empty [simp]: "best lo hi {} = 0"
proof -
  have "orders {} = {[]}" by (auto simp add: orders_def)
  then show ?thesis by (simp add: best_def)
qed


lemma orders_Cons_filter:
  assumes "c # cs \<in> orders S"
  shows "filter (\<lambda>x. x < c) cs \<in> orders {x \<in> S. x < c}"
    and "filter (\<lambda>x. c < x) cs \<in> orders {x \<in> S. c < x}"
proof -
  from assms have d: "distinct (c # cs)" and s: "S = set (c # cs)"
    by (simp_all add: orders_def)
  show "filter (\<lambda>x. x < c) cs \<in> orders {x \<in> S. x < c}"
    unfolding orders_def s using d by auto
  show "filter (\<lambda>x. c < x) cs \<in> orders {x \<in> S. c < x}"
    unfolding orders_def s using d by auto
qed

lemma orders_join:
  assumes c: "c \<in> S" and pl: "pl \<in> orders {x \<in> S. x < c}"
    and pr: "pr \<in> orders {x \<in> S. c < x}"
  shows "c # pl @ pr \<in> orders S"
    and "filter (\<lambda>x. x < c) (pl @ pr) = pl"
    and "filter (\<lambda>x. c < x) (pl @ pr) = pr"
proof -
  have dl: "distinct pl" and sl: "set pl = {x \<in> S. x < c}"
    using pl by (simp_all add: orders_def)
  have dr: "distinct pr" and sr: "set pr = {x \<in> S. c < x}"
    using pr by (simp_all add: orders_def)
  have cl: "c \<notin> set pl" unfolding sl by simp
  have cr: "c \<notin> set pr" unfolding sr by simp
  have di: "set pl \<inter> set pr = {}" unfolding sl sr by auto
  have "distinct (c # pl @ pr)" using dl dr cl cr di by simp
  moreover have "set (c # pl @ pr) = S"
    unfolding list.set set_append sl sr using c by auto
  ultimately show "c # pl @ pr \<in> orders S" unfolding orders_def by simp
  have a: "\<forall>x \<in> set pl. x < c" unfolding sl by simp
  have b: "\<forall>x \<in> set pr. \<not> x < c" unfolding sr by auto
  have a': "\<forall>x \<in> set pl. \<not> c < x" unfolding sl by auto
  have b': "\<forall>x \<in> set pr. c < x" unfolding sr by simp
  have "filter (\<lambda>x. x < c) pl = pl" "filter (\<lambda>x. x < c) pr = []"
    "filter (\<lambda>x. c < x) pl = []" "filter (\<lambda>x. c < x) pr = pr"
    using a b a' b' by (simp_all only: filter_True filter_False)
  then show "filter (\<lambda>x. x < c) (pl @ pr) = pl" "filter (\<lambda>x. c < x) (pl @ pr) = pr"
    by simp_all
qed

lemma best_rec:
  assumes fin: "finite S" and ne: "S \<noteq> {}"
  shows "best lo hi S
           = (hi - lo) + Min ((\<lambda>c. best lo c {x \<in> S. x < c} + best c hi {x \<in> S. c < x}) ` S)"
proof -
  let ?f = "\<lambda>c. best lo c {x \<in> S. x < c} + best c hi {x \<in> S. c < x}"
  have finf: "finite (?f ` S)" using fin by (rule finite_imageI)
  have nef: "?f ` S \<noteq> {}" using ne by simp
  have le: "best lo hi S \<le> (hi - lo) + Min (?f ` S)"
  proof -
    have "Min (?f ` S) \<in> ?f ` S" using finf nef by (rule Min_in)
    then obtain c where c: "c \<in> S" and m: "Min (?f ` S) = ?f c" by (rule imageE)
    have fl: "finite {x \<in> S. x < c}" and fr: "finite {x \<in> S. c < x}" using fin by simp_all
    obtain pl where pl: "pl \<in> orders {x \<in> S. x < c}"
      and tl: "tcost lo c pl = best lo c {x \<in> S. x < c}"
      using best_attained[OF fl, of lo c] by blast
    obtain pr where pr: "pr \<in> orders {x \<in> S. c < x}"
      and tr: "tcost c hi pr = best c hi {x \<in> S. c < x}"
      using best_attained[OF fr, of c hi] by blast
    have "best lo hi S \<le> tcost lo hi (c # pl @ pr)"
      using fin orders_join(1)[OF c pl pr] by (rule best_le)
    also have "tcost lo hi (c # pl @ pr) = (hi - lo) + tcost lo c pl + tcost c hi pr"
      by (simp only: tcost.simps orders_join(2,3)[OF c pl pr])
    also have "\<dots> = (hi - lo) + Min (?f ` S)" by (simp only: tl tr m add.assoc)
    finally show ?thesis .
  qed
  have ge: "(hi - lo) + Min (?f ` S) \<le> best lo hi S"
  proof -
    obtain p where p: "p \<in> orders S" and t: "tcost lo hi p = best lo hi S"
      using best_attained[OF fin, of lo hi] by blast
    from p ne obtain c cs where pc: "p = c # cs" by (cases p) (auto simp add: orders_def)
    have c: "c \<in> S" using p pc by (auto simp add: orders_def)
    have fl: "finite {x \<in> S. x < c}" and fr: "finite {x \<in> S. c < x}" using fin by simp_all
    have pc': "c # cs \<in> orders S" using p pc by simp
    have l: "best lo c {x \<in> S. x < c} \<le> tcost lo c (filter (\<lambda>x. x < c) cs)"
      using fl orders_Cons_filter(1)[OF pc'] by (rule best_le)
    have r: "best c hi {x \<in> S. c < x} \<le> tcost c hi (filter (\<lambda>x. c < x) cs)"
      using fr orders_Cons_filter(2)[OF pc'] by (rule best_le)
    have "?f c \<in> ?f ` S" using c by (rule imageI)
    with finf have "Min (?f ` S) \<le> ?f c" by (rule Min_le)
    then have "(hi - lo) + Min (?f ` S)
        \<le> (hi - lo) + tcost lo c (filter (\<lambda>x. x < c) cs) + tcost c hi (filter (\<lambda>x. c < x) cs)"
      using l r by linarith
    also have "\<dots> = tcost lo hi p" by (simp only: pc tcost.simps)
    finally show ?thesis using t by simp
  qed
  from le ge show ?thesis by (rule antisym)
qed

lemma sorted_nth_less_iff:
  assumes s: "sorted_wrt (<) (cuts :: int list)" and a: "a < length cuts" and b: "b < length cuts"
  shows "cuts ! a < cuts ! b \<longleftrightarrow> a < b"
proof
  assume "a < b"
  with s show "cuts ! a < cuts ! b" using b by (rule sorted_wrt_nth_less)
next
  assume l: "cuts ! a < cuts ! b"
  show "a < b"
  proof (rule ccontr)
    assume "\<not> a < b"
    then consider "a = b" | "b < a" by linarith
    then show False
    proof cases
      case 1
      then show False using l by simp
    next
      case 2
      with s have "cuts ! b < cuts ! a" using a by (rule sorted_wrt_nth_less)
      then show False using l by simp
    qed
  qed
qed

lemma seg_less:
  assumes s: "sorted_wrt (<) (cuts :: int list)" and ik: "i \<le> k" "k < j" and jn: "j \<le> length cuts"
  shows "{x \<in> (\<lambda>t. cuts ! t) ` {i ..< j}. x < cuts ! k} = (\<lambda>t. cuts ! t) ` {i ..< k}"
    and "{x \<in> (\<lambda>t. cuts ! t) ` {i ..< j}. cuts ! k < x} = (\<lambda>t. cuts ! t) ` {Suc k ..< j}"
proof -
  have kn: "k < length cuts" using ik jn by simp
  have lt: "cuts ! t < cuts ! k \<longleftrightarrow> t < k" if "t < j" for t
    by (rule sorted_nth_less_iff[OF s _ kn]) (use that jn in simp)
  have gt: "cuts ! k < cuts ! t \<longleftrightarrow> k < t" if "t < j" for t
    by (rule sorted_nth_less_iff[OF s kn]) (use that jn in simp)
  show "{x \<in> (\<lambda>t. cuts ! t) ` {i ..< j}. x < cuts ! k} = (\<lambda>t. cuts ! t) ` {i ..< k}"
  proof (intro equalityI subsetI)
    fix x assume "x \<in> {x \<in> (\<lambda>t. cuts ! t) ` {i ..< j}. x < cuts ! k}"
    then obtain t where t: "x = cuts ! t" "i \<le> t" "t < j" "cuts ! t < cuts ! k" by auto
    then have "t < k" using lt by simp
    then show "x \<in> (\<lambda>t. cuts ! t) ` {i ..< k}" using t by simp
  next
    fix x assume "x \<in> (\<lambda>t. cuts ! t) ` {i ..< k}"
    then obtain t where t: "x = cuts ! t" "i \<le> t" "t < k" by auto
    then have "t < j" using ik by simp
    then have "cuts ! t < cuts ! k" using lt t by simp
    then show "x \<in> {x \<in> (\<lambda>t. cuts ! t) ` {i ..< j}. x < cuts ! k}"
      using t \<open>t < j\<close> by simp
  qed
  show "{x \<in> (\<lambda>t. cuts ! t) ` {i ..< j}. cuts ! k < x} = (\<lambda>t. cuts ! t) ` {Suc k ..< j}"
  proof (intro equalityI subsetI)
    fix x assume "x \<in> {x \<in> (\<lambda>t. cuts ! t) ` {i ..< j}. cuts ! k < x}"
    then obtain t where t: "x = cuts ! t" "i \<le> t" "t < j" "cuts ! k < cuts ! t" by auto
    then have "k < t" using gt by simp
    then show "x \<in> (\<lambda>t. cuts ! t) ` {Suc k ..< j}" using t by simp
  next
    fix x assume "x \<in> (\<lambda>t. cuts ! t) ` {Suc k ..< j}"
    then obtain t where t: "x = cuts ! t" "Suc k \<le> t" "t < j" by auto
    then have "cuts ! k < cuts ! t" using gt by simp
    moreover have "i \<le> t" using t ik by simp
    ultimately show "x \<in> {x \<in> (\<lambda>t. cuts ! t) ` {i ..< j}. cuts ! k < x}"
      using t by simp
  qed
qed

lemma bsc_opt_best:
  assumes s: "sorted_wrt (<) cuts"
  shows "i \<le> j \<Longrightarrow> j \<le> length cuts \<Longrightarrow>
    bsc_opt L cuts i j
      = best (pos_start cuts i) (pos_end L cuts j) ((\<lambda>t. cuts ! t) ` {i ..< j})"
proof (induction "j - i" arbitrary: i j rule: less_induct)
  case less
  show ?case
  proof (cases "j \<le> i")
    case True
    then have "{i ..< j} = {}" by simp
    then show ?thesis using True by (subst bsc_opt.simps) simp
  next
    case False
    then have ij: "i < j" by simp
    let ?S = "(\<lambda>t. cuts ! t) ` {i ..< j}"
    let ?lo = "pos_start cuts i"
    let ?hi = "pos_end L cuts j"
    let ?A = "(\<lambda>k. bsc_opt L cuts i k + bsc_opt L cuts (Suc k) j) ` {i ..< j}"
    let ?g = "\<lambda>c. best ?lo c {x \<in> ?S. x < c} + best c ?hi {x \<in> ?S. c < x}"
    have fin: "finite ?S" by simp
    have ne: "?S \<noteq> {}" using ij by simp
    have step: "bsc_opt L cuts i k + bsc_opt L cuts (Suc k) j = ?g (cuts ! k)"
      if k: "k \<in> {i ..< j}" for k
    proof -
      have ik: "i \<le> k" "k < j" using k by simp_all
      have kn: "k < length cuts" using ik less.prems by simp
      have a: "bsc_opt L cuts i k
                 = best ?lo (pos_end L cuts k) ((\<lambda>t. cuts ! t) ` {i ..< k})"
        by (rule less.hyps) (use ik less.prems in simp_all)
      have b: "pos_end L cuts k = cuts ! k" using kn by (simp add: pos_end_def)
      have c: "bsc_opt L cuts (Suc k) j
                 = best (pos_start cuts (Suc k)) ?hi ((\<lambda>t. cuts ! t) ` {Suc k ..< j})"
        by (rule less.hyps) (use ik less.prems in simp_all)
      have d: "pos_start cuts (Suc k) = cuts ! k" by (simp add: pos_start_def)
      show ?thesis unfolding a b c d seg_less[OF s ik less.prems(2)] ..
    qed
    have d: "bsc_opt L cuts i j = Min ?A + ?hi - ?lo"
      using False by (subst bsc_opt.simps) simp
    have "?A = (\<lambda>k. ?g (cuts ! k)) ` {i ..< j}"
      by (rule image_cong[OF refl]) (rule step)
    also have "\<dots> = ?g ` ?S" by (simp only: image_image)
    finally have img: "?A = ?g ` ?S" .
    have "best ?lo ?hi ?S = (?hi - ?lo) + Min (?g ` ?S)" using fin ne by (rule best_rec)
    then show ?thesis unfolding d img by simp
  qed
qed

lemma brute_force_cost_best:
  assumes s: "sorted_wrt (<) cuts" and r: "\<forall>c \<in> set cuts. 0 \<le> c \<and> c < L"
  shows "brute_force_cost L cuts = best 0 L (set cuts)"
proof -
  have d: "distinct cuts" using s by (simp add: strict_sorted_iff)
  have "set (map (cut_seq_cost L []) (perms cuts)) = cut_seq_cost L [] ` orders (set cuts)"
    by (simp only: set_map perms_orders[OF d])
  also have "\<dots> = tcost 0 L ` orders (set cuts)"
  proof (rule image_cong[OF refl])
    fix p assume "p \<in> orders (set cuts)"
    then have "distinct p" "\<forall>c \<in> set p. 0 \<le> c \<and> c < L"
      using r by (simp_all add: orders_def)
    then show "cut_seq_cost L [] p = tcost 0 L p" by (rule cut_seq_cost_whole)
  qed
  finally show ?thesis by (simp only: brute_force_cost_def best_def)
qed

subsection \<open>The result is the least cost over all orders\<close>

text \<open>The six orders of the cuts 2, 8, 10 of a string of length 20, and the cost of each.\<close>

lemma perms_example:
  "perms [2, 8, 10 :: int] = [[2, 8, 10], [8, 2, 10], [8, 10, 2], [2, 10, 8], [10, 2, 8], [10, 8, 2]]"
  by code_simp

lemma cut_seq_cost_orders_example:
  "map (cut_seq_cost 20 []) (perms [2, 8, 10]) = [50, 40, 40, 46, 38, 38]"
  by code_simp

text \<open>
  C1: for every \<open>string_length\<close> and every strictly increasing list \<open>cuts\<close> of positions in
  \<open>[0, string_length)\<close>, of any length (so also for at most 6 cuts and a positive length),
  \<^verbatim>\<open>break_string_cost\<close> returns the least total cost over all orders in which the cuts can be
  applied, where each cut costs the length of the piece it is made in at that moment.
\<close>

theorem break_string_cost_brute_force:
  assumes "sorted_wrt (<) cuts" "\<forall>c \<in> set cuts. 0 \<le> c \<and> c < L"
  shows "break_string_cost L cuts = Inr (Fin (brute_force_cost L cuts))"
proof -
  have "bsc_opt L cuts 0 (length cuts)
          = best (pos_start cuts 0) (pos_end L cuts (length cuts))
              ((\<lambda>t. cuts ! t) ` {0 ..< length cuts})"
    by (rule bsc_opt_best[OF assms(1)]) simp_all
  moreover have "(\<lambda>t. cuts ! t) ` {0 ..< length cuts} = set cuts"
    using nth_image[of "length cuts" cuts] by simp
  ultimately have "bsc_opt L cuts 0 (length cuts) = best 0 L (set cuts)"
    by (simp add: pos_start_def pos_end_def)
  then show ?thesis
    by (simp only: break_string_cost_opt brute_force_cost_best[OF assms])
qed

theorem break_string_cost_brute_force_witness:
  "break_string_cost 20 [2, 8, 10] = Inr (Fin (brute_force_cost 20 [2, 8, 10]))
     \<and> brute_force_cost 20 [2, 8, 10] = 38"
proof -
  have h: "sorted_wrt (<) [2, 8, 10 :: int]" "\<forall>c \<in> set [2, 8, 10 :: int]. 0 \<le> c \<and> c < 20"
    by simp_all
  have "break_string_cost 20 [2, 8, 10] = Inr (Fin 38)" by code_simp
  then show ?thesis using break_string_cost_brute_force[OF h] by simp
qed
section \<open>Concrete runs\<close>

text \<open>
  C4: \<^verbatim>\<open>break_string_cost(20, [2, 8, 10])\<close> returns 38.
\<close>

theorem break_string_cost_example: "break_string_cost 20 [2, 8, 10] = Inr (Fin 38)"
  by code_simp

text \<open>
  C6: on the grid \<^verbatim>\<open>[[1,2,3],[4,5,6],[7,8,9]]\<close> with \<open>m = 3\<close> and \<open>n = 3\<close> the table has
  the rows \<open>[1,2,3]\<close>, \<open>[5,6,8]\<close> and \<open>[12,13,15]\<close>, and \<^verbatim>\<open>find_least_seam\<close> returns 12.
\<close>

theorem find_least_seam_example:
  "seam_table [[1, 2, 3], [4, 5, 6], [7, 8, 9]] 3 3
     = Inr [[Fin 1, Fin 2, Fin 3], [Fin 5, Fin 6, Fin 8], [Fin 12, Fin 13, Fin 15]]
   \<and> find_least_seam [[1, 2, 3], [4, 5, 6], [7, 8, 9]] 3 3 = Inr (Fin 12)"
  by code_simp

text \<open>
  C2 fails on the grid \<^verbatim>\<open>[[5,5,1],[0,9,9]]\<close>: the cell of row 1, column 0 is computed from
  the last column of row 0 as well, so the table holds 1 there where the recurrence of the
  specification gives 5, and the function returns 1 although the cheapest seam costs 5.
\<close>

theorem find_least_seam_wraps_example:
  "seam_table [[5, 5, 1], [0, 9, 9]] 2 3
     = Inr [[Fin 5, Fin 5, Fin 1], [Fin 1, Fin 14, Fin 14]]
   \<and> find_least_seam [[5, 5, 1], [0, 9, 9]] 2 3 = Inr (Fin 1)
   \<and> map (seam_spec [[5, 5, 1], [0, 9, 9]] 3 1) [0, 1, 2] = [5, 10, 10]"
  by code_simp

text \<open>
  C3 as stated fails: on \<^verbatim>\<open>cuts = [5, 3]\<close> and on \<^verbatim>\<open>cuts = [-1, 5]\<close> (string length 10)
  the function raises nothing and returns a number.
\<close>

theorem break_string_cost_no_validation_example:
  "break_string_cost 10 [5, 3] = Inr (Fin 13) \<and> break_string_cost 10 [- 1, 5] = Inr (Fin 15)"
  by code_simp

text \<open>
  C5 as stated fails: in the table of \<^verbatim>\<open>break_string_cost(20, [2, 8, 10])\<close> the cells with
  \<open>j - i = 1\<close> hold the costs 8, 8 and 12 and the split indices 0, 1 and 2.
\<close>

theorem bsc_table_adjacent_example:
  "bsc_table 20 [2, 8, 10]
     = Inr [[(Fin 0, - 1), (Fin 8, 0), (Fin 18, 0), (Fin 38, 2)],
            [(Fin 0, - 1), (Fin 0, - 1), (Fin 8, 1), (Fin 26, 2)],
            [(Fin 0, - 1), (Fin 0, - 1), (Fin 0, - 1), (Fin 12, 2)],
            [(Fin 0, - 1), (Fin 0, - 1), (Fin 0, - 1), (Fin 0, - 1)]]"
  by code_simp

end
